theory Spec2Isabelle
  imports Complex_Main
begin

section \<open>Errors\<close>

text \<open>
  The Python exceptions the modelled functions can raise.  \<open>TypeError\<close> is what
  subscripting \<open>None\<close> raises, \<open>IndexError\<close> what indexing a list or a register out of
  range raises, \<open>NameError\<close> what reading a local name that was never bound raises
  (Python's \<open>UnboundLocalError\<close> is a subclass of it), \<open>KeyError\<close> what looking up a
  missing key of a dictionary raises, \<open>AssertionError\<close> a failed \<open>assert\<close>.
\<close>

datatype error = TypeError | IndexError | KeyError | NameError | AssertionError

section \<open>utilities_multiples.py\<close>

subsection \<open>get_remainders_power_2\<close>

text \<open>
  Python's \<open>xs * n\<close> on lists: \<open>n\<close> copies of \<open>xs\<close>, none when \<open>n \<le> 0\<close>.
\<close>

definition list_times :: "'a list \<Rightarrow> int \<Rightarrow> 'a list" where
  "list_times xs n = concat (replicate (nat n) xs)"

text \<open>
  The body of \<open>for p in range(2, power + 1)\<close>, with the list \<open>remainders\<close> as the
  loop state.  The \<open>break\<close> leaves the loop with the tiled and truncated list; the slice
  \<open>remainders[:power+1]\<close> is a prefix because \<open>power + 1 > 0\<close> inside the loop.
\<close>

function remainders_loop :: "int \<Rightarrow> int \<Rightarrow> int \<Rightarrow> int list \<Rightarrow> int list" where
  "remainders_loop number power' p remainders =
     (if p < power' + 1 then
        (let check_num = last remainders * 2;
             check_num = (if check_num \<ge> number then check_num - number else check_num)
         in if check_num = 1 then
              (let complete_repetitions = power' div int (length remainders) + 1
               in take (nat (power' + 1)) (list_times remainders complete_repetitions))
            else remainders_loop number power' (p + 1) (remainders @ [check_num]))
      else remainders)"
  by pat_completeness auto
termination
  by (relation "measure (\<lambda>(number, power', p, remainders). nat (power' + 1 - p))") auto

declare remainders_loop.simps [simp del]

definition get_remainders_power_2 :: "int \<Rightarrow> int \<Rightarrow> int list" where
  "get_remainders_power_2 number power' = remainders_loop number power' 2 [1, 2]"


text \<open>The list of the remainders of \<open>2 ^ 0, \<dots>, 2 ^ (n - 1)\<close> modulo \<open>K\<close>.\<close>

definition pow2_remainders :: "int \<Rightarrow> nat \<Rightarrow> int list" where
  "pow2_remainders K n = map (\<lambda>i. 2 ^ i mod K) [0..<n]"

subsection \<open>to_binary\<close>

text \<open>
  Python's \<open>bin(number)[2:]\<close>.  For a positive number these are its binary digits, most
  significant first; \<open>bin(0)\<close> is \<open>0b0\<close>, which leaves \<open>0\<close>; for a negative number
  \<open>bin\<close> puts the sign first (\<open>-0b101\<close>), so that dropping two characters leaves
  \<open>b101\<close>.
\<close>

fun bin_digits :: "nat \<Rightarrow> string" where
  "bin_digits n =
     (if n = 0 then []
      else bin_digits (n div 2) @ [if n mod 2 = 1 then CHR ''1'' else CHR ''0''])"

declare bin_digits.simps [simp del]

definition bin_drop2 :: "int \<Rightarrow> string" where
  "bin_drop2 number =
     (if number = 0 then ''0''
      else if 0 < number then bin_digits (nat number)
      else CHR ''b'' # bin_digits (nat (- number)))"

text \<open>
  \<open>to_binary\<close> returns a string, or prints a message and falls off its end, which returns
  Python's \<open>None\<close>: the result is a \<open>string option\<close>.  The widths of this development are
  lengths of registers, hence natural numbers.
\<close>

definition to_binary :: "int \<Rightarrow> nat option \<Rightarrow> string option" where
  "to_binary number nbits =
     (case nbits of
        None \<Rightarrow> Some (bin_drop2 number)
      | Some nbits \<Rightarrow>
          (let binary = bin_drop2 number
           in if nbits < length binary then None
              else Some (replicate (nbits - length binary) CHR ''0'' @ binary)))"

section \<open>code/operations.py\<close>

text \<open>Sequencing of computations that may raise.\<close>

definition bind :: "error + 'a \<Rightarrow> ('a \<Rightarrow> error + 'b) \<Rightarrow> error + 'b" where
  "bind m f = (case m of Inl e \<Rightarrow> Inl e | Inr x \<Rightarrow> f x)"

subsection \<open>get_angles_phase_addition\<close>

text \<open>
  \<open>num_binary[j]\<close>: subscripting \<open>None\<close> raises \<open>TypeError\<close>, subscripting a string
  beyond its end raises \<open>IndexError\<close>.
\<close>

definition subscript :: "string option \<Rightarrow> nat \<Rightarrow> error + char" where
  "subscript num_binary j =
     (case num_binary of
        None \<Rightarrow> Inl TypeError
      | Some s \<Rightarrow> if j < length s then Inr (s ! j) else Inl IndexError)"

text \<open>
  The inner comprehension and its \<open>sum\<close>, for one \<open>i\<close>: \<open>e0\<close> is \<open>nqubits - i - 1\<close> and
  the list holds the values of \<open>j\<close>.  The floating-point numbers of the source are
  modelled as reals; \<open>math.pow(2, e)\<close> at an integer \<open>e\<close> is \<open>2 powi e\<close>.
\<close>

fun angle_sum :: "string option \<Rightarrow> int \<Rightarrow> nat list \<Rightarrow> error + real" where
  "angle_sum num_binary e0 [] = Inr 0"
| "angle_sum num_binary e0 (j # js) =
     bind (subscript num_binary j) (\<lambda>c.
     bind (angle_sum num_binary e0 js) (\<lambda>s.
       Inr ((if c = CHR ''1'' then 2 powi (e0 - int j) else 0) + s)))"

text \<open>The outer comprehension, over the values of \<open>i\<close>.\<close>

fun angle_list :: "string option \<Rightarrow> nat \<Rightarrow> nat list \<Rightarrow> error + real list" where
  "angle_list num_binary nqubits [] = Inr []"
| "angle_list num_binary nqubits (i # is) =
     bind (angle_sum num_binary (int nqubits - int i - 1) [nqubits - i - 1 ..< nqubits]) (\<lambda>s.
     bind (angle_list num_binary nqubits is) (\<lambda>rest.
       Inr (s * pi # rest)))"

definition get_angles_phase_addition :: "int \<Rightarrow> nat \<Rightarrow> error + real list" where
  "get_angles_phase_addition number' nqubits =
     (let num_binary = to_binary number' (Some nqubits)
      in angle_list num_binary nqubits [0 ..< nqubits])"

subsection \<open>Gates and circuits\<close>

text \<open>
  A circuit is the sequence of the operations appended to it, over qubits of type \<open>'q\<close>.
  \<open>QFT n a inv qs\<close> is the library circuit
  \<open>QFT(num_qubits=n, do_swaps=False, approximation_degree=a, inverse=inv)\<close> appended on
  the qubits \<open>qs\<close>.  The name of a circuit plays no role and is left out.
\<close>

datatype 'q gate =
    P real 'q
  | CP real 'q 'q
  | X 'q
  | CX 'q 'q
  | H 'q
  | QFT nat nat bool "'q list"

type_synonym 'q circuit = "'q gate list"

subsection \<open>phase_add and c_phase_add\<close>

definition phase_add :: "'q circuit \<Rightarrow> 'q list \<Rightarrow> int \<Rightarrow> bool \<Rightarrow> error + 'q circuit" where
  "phase_add circuit target_register num_sum inv' =
     (let nqubits = length target_register
      in bind (get_angles_phase_addition num_sum nqubits) (\<lambda>angles.
           let angles = (if inv' then map (\<lambda>a. - 1 * a) angles else angles)
           in Inr (circuit @ map (\<lambda>i. P (angles ! i) (target_register ! i)) [0 ..< nqubits])))"

definition c_phase_add :: "'q circuit \<Rightarrow> 'q \<Rightarrow> 'q list \<Rightarrow> int \<Rightarrow> bool \<Rightarrow> error + 'q circuit" where
  "c_phase_add circuit control target_register num_sum inv' =
     (let nqubits = length target_register
      in bind (get_angles_phase_addition num_sum nqubits) (\<lambda>angles.
           let angles = (if inv' then map (\<lambda>a. - 1 * a) angles else angles)
           in Inr (circuit @ map (\<lambda>i. CP (angles ! i) control (target_register ! i)) [0 ..< nqubits])))"

subsection \<open>c_phase_add_mod_K\<close>

text \<open>
  \<open>target_register[nqubits-1]\<close>: on an empty register the index is \<open>-1\<close> and the
  subscript raises \<open>IndexError\<close>.
\<close>

definition last_qubit :: "'q list \<Rightarrow> error + 'q" where
  "last_qubit target_register =
     (if target_register = [] then Inl IndexError
      else Inr (target_register ! (length target_register - 1)))"

definition c_phase_add_mod_K ::
  "'q list \<Rightarrow> 'q \<Rightarrow> 'q \<Rightarrow> int \<Rightarrow> int \<Rightarrow> nat \<Rightarrow> bool \<Rightarrow> error + 'q circuit" where
  "c_phase_add_mod_K target_register control ancilla_qubit num_sum K approx_QFT include_QFTs =
     (let nqubits = length target_register;
          circuit = [];
          directQFT = QFT nqubits approx_QFT False target_register;
          inverseQFT = QFT nqubits approx_QFT True target_register;
          circuit = (if include_QFTs then circuit @ [directQFT] else circuit)
      in bind (c_phase_add circuit control target_register num_sum False) (\<lambda>circuit.
         bind (phase_add circuit target_register K True) (\<lambda>circuit.
         let circuit = circuit @ [inverseQFT]
         in bind (last_qubit target_register) (\<lambda>top.
         let circuit = circuit @ [CX top ancilla_qubit];
             circuit = circuit @ [directQFT]
         in bind (c_phase_add circuit ancilla_qubit target_register K False) (\<lambda>circuit.
         bind (c_phase_add circuit control target_register num_sum True) (\<lambda>circuit.
         let circuit = circuit @ [inverseQFT];
             circuit = circuit @ [X top];
             circuit = circuit @ [CX top ancilla_qubit];
             circuit = circuit @ [X top];
             circuit = circuit @ [directQFT]
         in bind (c_phase_add circuit control target_register num_sum False) (\<lambda>circuit.
         let circuit = (if include_QFTs then circuit @ [inverseQFT] else circuit)
         in Inr circuit)))))))"

subsection \<open>Closed forms for the angle vector\<close>

text \<open>
  The \<open>w\<close> binary digits of \<open>n\<close>, most significant first: the string \<open>to_binary\<close>
  returns when the number fits.
\<close>

definition bit_string :: "nat \<Rightarrow> nat \<Rightarrow> string" where
  "bit_string n w = map (\<lambda>j. if bit n (w - 1 - j) then CHR ''1'' else CHR ''0'') [0..<w]"


text \<open>
  The closed form as the specification words it: entry \<open>i\<close> is \<open>\<pi>\<close> times the sum, over
  the bits \<open>j \<ge> i\<close> that are set, of \<open>2 ^ (w - 1 - i - j)\<close>.  \<open>spec_angle\<close> reads
  \<open>b[j]\<close> as the bit of weight \<open>2 ^ j\<close>; \<open>spec_angle_msb\<close> reads it as the character
  at index \<open>j\<close> of the binary string, most significant first.
\<close>

definition spec_angle :: "int \<Rightarrow> nat \<Rightarrow> nat \<Rightarrow> real" where
  "spec_angle m w i = pi * (\<Sum>j = i..<w. if bit m j then 2 powi (int w - 1 - int i - int j) else 0)"

definition spec_angle_msb :: "int \<Rightarrow> nat \<Rightarrow> nat \<Rightarrow> real" where
  "spec_angle_msb m w i =
     pi * (\<Sum>j = i..<w. if bit m (w - 1 - j) then 2 powi (int w - 1 - int i - int j) else 0)"


text \<open>The gates of the phase adders: the plain and the controlled phase rotation.\<close>

definition is_phase_gate :: "'q gate \<Rightarrow> bool" where
  "is_phase_gate g = (case g of P _ _ \<Rightarrow> True | CP _ _ _ \<Rightarrow> True | _ \<Rightarrow> False)"


section \<open>utilities_multiples.py: the multi-controlled gate\<close>

subsection \<open>_c1c2\<close>

text \<open>
  The operations \<open>_c1c2\<close> appends: \<open>CSQ gate coef signal c t\<close> is the composition of
  \<open>_gate_u(gate, coef, signal)\<close>, the controlled root \<open>gate ^ (1 / coef)\<close> (inverted when
  \<open>signal < 0\<close>), on the qubits \<open>[c, t]\<close>; \<open>CRX \<theta> c t\<close> is \<open>qcirc.crx(\<theta>, c, t)\<close>.  The
  single-qubit gate is kept symbolic, of type \<open>'u\<close>.
\<close>

datatype ('u, 'q) mc_op =
    CSQ 'u nat int 'q 'q
  | CRX real 'q 'q

fun op_pair :: "('u, 'q) mc_op \<Rightarrow> 'q \<times> 'q" where
  "op_pair (CSQ gate coef signal c t) = (c, t)"
| "op_pair (CRX \<theta> c t) = (c, t)"

text \<open>
  Python's \<open>list.sort(key=..., reverse=...)\<close>: a stable sort; with \<open>reverse=True\<close>
  the order is descending and elements with equal keys keep their original order.
\<close>

definition py_sort :: "('a \<Rightarrow> nat) \<Rightarrow> bool \<Rightarrow> 'a list \<Rightarrow> 'a list" where
  "py_sort key reverse xs = (if reverse then rev (sort_key key (rev xs)) else sort_key key xs)"

text \<open>The list \<open>qubit_pairs\<close> of \<open>_c1c2\<close> after its \<open>sort\<close>.\<close>

definition qubit_pairs :: "nat \<Rightarrow> int \<Rightarrow> (nat \<times> nat) list" where
  "qubit_pairs n_qubits step =
     (let start = (if step = 1 then 0 else 1);
          reverse = (if step = 1 then True else False);
          qubit_pairs = concat (map (\<lambda>target. map (\<lambda>control. (control, target)) [start ..< target])
                                    [0 ..< n_qubits])
      in py_sort (\<lambda>e. fst e + snd e) reverse qubit_pairs)"

text \<open>
  The body of the loop over the pairs.  Every pair has \<open>control < target\<close>, so the
  exponent is not negative and \<open>2**exponent\<close> is an integer.
\<close>

definition c1c2_op :: "'u \<Rightarrow> nat \<Rightarrow> bool \<Rightarrow> int \<Rightarrow> nat \<times> nat \<Rightarrow> ('u, nat) mc_op" where
  "c1c2_op gate n_qubits first step pair =
     (let control = fst pair; target = snd pair;
          exponent = int target - int control;
          exponent = (if control = 0 then exponent - 1 else exponent);
          param = 2 ^ nat exponent;
          signal = (if control = 0 \<and> \<not> first then - 1 else 1);
          signal = step * signal
      in if int target = int n_qubits - 1 \<and> first then CSQ gate param signal control target
         else CRX (real_of_int signal * pi / real param) control target)"

definition c1c2 ::
  "'u \<Rightarrow> nat \<Rightarrow> ('u, nat) mc_op list \<Rightarrow> bool \<Rightarrow> int \<Rightarrow> ('u, nat) mc_op list" where
  "c1c2 gate n_qubits qcirc first step =
     qcirc @ map (c1c2_op gate n_qubits first step) (qubit_pairs n_qubits step)"

subsection \<open>mc_gate and multi_control_z\<close>

text \<open>
  \<open>circuit.compose(gate_circuit, controls + [targ])\<close> puts the operations of
  \<open>gate_circuit\<close> on the listed qubits of \<open>circuit\<close>.
\<close>

definition mc_gate ::
  "'u \<Rightarrow> ('u, 'q) mc_op list \<Rightarrow> 'q list \<Rightarrow> 'q \<Rightarrow> ('u, 'q) mc_op list" where
  "mc_gate gate circuit controls targ =
     (let n_qubits = length controls + 1;
          gate_circuit = [];
          gate_circuit = c1c2 gate n_qubits gate_circuit True 1;
          gate_circuit = c1c2 gate n_qubits gate_circuit True (- 1);
          gate_circuit = c1c2 gate (n_qubits - 1) gate_circuit False 1;
          gate_circuit = c1c2 gate (n_qubits - 1) gate_circuit False (- 1)
      in circuit @ map (map_mc_op id (\<lambda>q. (controls @ [targ]) ! q)) gate_circuit)"

text \<open>The matrix \<open>[[1, 0], [0, -1]]\<close> that \<open>multi_control_z\<close> passes as the gate.\<close>

definition xgate :: "int list list" where
  "xgate = [[1, 0], [0, - 1]]"

definition multi_control_z :: "nat \<Rightarrow> (int list list, int) mc_op list" where
  "multi_control_z nqubits =
     (let circuit = [];
          controls = map int [0 ..< nqubits - 1];
          target = int nqubits - 1
      in mc_gate xgate circuit controls target)"

section \<open>code/multiples_functions.py and multiples_functions.py\<close>

subsection \<open>Registers, sub-circuits and the state of a build\<close>

text \<open>
  The qubits of the oracle circuit, by register: \<open>input\<close>, \<open>remainders\<close> and
  \<open>ancilla\<close>.  A register is the list of its qubits; subscripting it out of range
  raises \<open>IndexError\<close>.
\<close>

datatype qubit = Input nat | Remainders nat | Ancilla nat

definition register_index :: "qubit list \<Rightarrow> nat \<Rightarrow> error + qubit" where
  "register_index register i = (if i < length register then Inr (register ! i) else Inl IndexError)"

text \<open>
  The circuit object one call of \<open>c_phase_add_mod_K\<close> returns.  Two calls return two
  objects even when their gates agree: \<open>built_by\<close> is the number of the call, counted
  within one build of the oracle, and identifies the object.
\<close>

record adder =
  built_by :: nat
  gates :: "nat circuit"

text \<open>
  A circuit supplied by the caller as the extra oracle, with its number of
  instructions: a \<open>QuantumCircuit\<close> is true in a condition when it is not empty.
\<close>

datatype ext_circuit = Ext_circuit nat

fun oracle_given :: "ext_circuit option \<Rightarrow> bool" where
  "oracle_given None = False"
| "oracle_given (Some (Ext_circuit n)) = (0 < n)"

text \<open>A list argument that may be \<open>None\<close> is true in a condition when it is a non-empty list.\<close>

fun list_given :: "'a list option \<Rightarrow> bool" where
  "list_given None = False"
| "list_given (Some xs) = (xs \<noteq> [])"

text \<open>
  The operations of the oracle circuit: a gate, a cached adder appended on a list of
  qubits, the circuit of \<open>multi_control_z\<close> appended on a list of qubits, and the extra
  oracle appended with a number of control qubits (\<open>oracle.to_gate().control(n)\<close>, or
  the oracle itself for \<open>n = 0\<close>).
\<close>

datatype main_op =
    Gate "qubit gate"
  | Append_adder adder "qubit list"
  | Append_mcz "(int list list, int) mc_op list" "qubit list"
  | Append_oracle ext_circuit nat "qubit list"

text \<open>
  The state of one build: the dictionary \<open>circuits_sums\<close>, the arguments \<open>num_sum\<close>
  of the calls of \<open>c_phase_add_mod_K\<close> made so far, the size of the classical register
  of the circuit when it has one, the operations appended to the circuit, and the
  exception raised, if any.  After an exception nothing more happens.
\<close>

record build_state =
  circuits_sums :: "int \<rightharpoonup> adder"
  calls :: "int list"
  classical :: "nat option"
  circuit :: "main_op list"
  raised :: "error option"

definition emit :: "main_op list \<Rightarrow> build_state \<Rightarrow> build_state" where
  "emit ops st = (if raised st \<noteq> None then st else st\<lparr>circuit := circuit st @ ops\<rparr>)"

definition raise :: "error \<Rightarrow> build_state \<Rightarrow> build_state" where
  "raise e st = (if raised st \<noteq> None then st else st\<lparr>raised := Some e\<rparr>)"

subsection \<open>The two loops over the remainders\<close>

text \<open>
  The body shared by the fold-in and the fold-out loop, for the index \<open>i\<close> and the
  addend \<open>num_sum\<close> (the remainder, or its inverse): build the adder unless the
  dictionary has the key, then append the adder of the dictionary on
  \<open>[input_register[i]] + remainders + [ancilla[0]]\<close>.
\<close>

definition append_sum ::
  "int \<Rightarrow> nat \<Rightarrow> qubit list \<Rightarrow> qubit list \<Rightarrow> nat list \<Rightarrow> qubit list \<Rightarrow> nat \<Rightarrow> int \<Rightarrow>
   build_state \<Rightarrow> build_state" where
  "append_sum k approx_QFT input_register remainders range_remainders ancilla i num_sum st =
     (if raised st \<noteq> None then st
      else
        let st =
          (if num_sum \<notin> dom (circuits_sums st) then
             (case c_phase_add_mod_K range_remainders 0 (length range_remainders + 1)
                     num_sum k approx_QFT False of
                Inl e \<Rightarrow> st\<lparr>calls := calls st @ [num_sum], raised := Some e\<rparr>
              | Inr c \<Rightarrow>
                  st\<lparr>circuits_sums := (circuits_sums st)
                         (num_sum \<mapsto> \<lparr>built_by = length (calls st), gates = c\<rparr>),
                     calls := calls st @ [num_sum]\<rparr>)
           else st)
        in if raised st \<noteq> None then st
           else
             (case circuits_sums st num_sum of
                None \<Rightarrow> raise KeyError st
              | Some a \<Rightarrow>
                  (case register_index input_register i of
                     Inl e \<Rightarrow> raise e st
                   | Inr q \<Rightarrow>
                       (case register_index ancilla 0 of
                          Inl e \<Rightarrow> raise e st
                        | Inr anc \<Rightarrow> emit [Append_adder a ([q] @ remainders @ [anc])] st))))"

fun fold_in ::
  "int \<Rightarrow> nat \<Rightarrow> qubit list \<Rightarrow> qubit list \<Rightarrow> nat list \<Rightarrow> qubit list \<Rightarrow> (nat \<times> int) list \<Rightarrow>
   build_state \<Rightarrow> build_state" where
  "fold_in k approx_QFT input_register remainders range_remainders ancilla [] st = st"
| "fold_in k approx_QFT input_register remainders range_remainders ancilla ((i, remainder) # rest) st =
     fold_in k approx_QFT input_register remainders range_remainders ancilla rest
       (append_sum k approx_QFT input_register remainders range_remainders ancilla i remainder st)"

fun fold_out ::
  "int \<Rightarrow> nat \<Rightarrow> qubit list \<Rightarrow> qubit list \<Rightarrow> nat list \<Rightarrow> qubit list \<Rightarrow> (nat \<times> int) list \<Rightarrow>
   build_state \<Rightarrow> build_state" where
  "fold_out k approx_QFT input_register remainders range_remainders ancilla [] st = st"
| "fold_out k approx_QFT input_register remainders range_remainders ancilla
     ((i, remainder_original) # rest) st =
     (let inverse_remainder = k - remainder_original
      in fold_out k approx_QFT input_register remainders range_remainders ancilla rest
           (append_sum k approx_QFT input_register remainders range_remainders ancilla i
              inverse_remainder st))"

subsection \<open>The marking step\<close>

text \<open>
  \<open>[qubits[i] for i, state in enumerate(state_control[::-1]) if state == 0]\<close>; the
  assertion before it makes the two lists equally long.
\<close>

definition qubits_apply_not_gate :: "qubit list \<Rightarrow> int list \<Rightarrow> qubit list" where
  "qubits_apply_not_gate qubits state_control =
     map (\<lambda>(i, state). qubits ! i)
       (filter (\<lambda>(i, state). state = 0) (List.enumerate 0 (rev state_control)))"

text \<open>
  The default marking: \<open>X\<close> on all remainder qubits but the last, the multi-controlled
  \<open>Z\<close> on them, and \<open>X\<close> again.
\<close>

definition mark_default :: "qubit list \<Rightarrow> main_op list" where
  "mark_default remainders =
     map (\<lambda>q. Gate (X q)) (butlast remainders) @
     [Append_mcz (multi_control_z (length remainders - 1)) (butlast remainders)] @
     map (\<lambda>q. Gate (X q)) (butlast remainders)"

text \<open>The marking step of \<open>code/multiples_functions.py\<close>.\<close>

definition mark_multiples ::
  "ext_circuit option \<Rightarrow> qubit list option \<Rightarrow> qubit list option \<Rightarrow> int list option \<Rightarrow>
   qubit list \<Rightarrow> qubit list \<Rightarrow> build_state \<Rightarrow> build_state" where
  "mark_multiples oracle qubits_oracle qubits_control state_control input_register remainders st =
     (if oracle_given oracle then
        (let qubits_oracle = (if \<not> list_given qubits_oracle then input_register else the qubits_oracle)
         in if list_given qubits_control then
              (let qubits_control = the qubits_control
               in if \<not> list_given state_control then
                    emit (map (\<lambda>q. Gate (X q)) qubits_control @
                          [Append_oracle (the oracle) (length qubits_control)
                             (qubits_control @ qubits_oracle)] @
                          map (\<lambda>q. Gate (X q)) qubits_control) st
                  else if length qubits_control \<noteq> length (the state_control) then
                    raise AssertionError st
                  else
                    (let nots = qubits_apply_not_gate qubits_control (the state_control)
                     in emit (map (\<lambda>q. Gate (X q)) nots @
                              [Append_oracle (the oracle) (length qubits_control)
                                 (qubits_control @ qubits_oracle)] @
                              map (\<lambda>q. Gate (X q)) nots) st))
            else
              (if \<not> list_given state_control then
                 emit (map (\<lambda>q. Gate (X q)) qubits_oracle @
                       [Append_oracle (the oracle) 0 qubits_oracle] @
                       map (\<lambda>q. Gate (X q)) qubits_oracle) st
               else if length qubits_oracle \<noteq> length (the state_control) then
                 raise AssertionError st
               else
                 (let nots = qubits_apply_not_gate qubits_oracle (the state_control)
                  in emit (map (\<lambda>q. Gate (X q)) nots @
                           [Append_oracle (the oracle) 0 qubits_oracle] @
                           map (\<lambda>q. Gate (X q)) nots) st)))
      else emit (mark_default remainders) st)"

text \<open>The marking step of \<open>multiples_functions.py\<close>.\<close>

definition mark_multiples_root ::
  "ext_circuit option \<Rightarrow> qubit list option \<Rightarrow> qubit list \<Rightarrow> qubit list \<Rightarrow>
   build_state \<Rightarrow> build_state" where
  "mark_multiples_root oracle qubits_oracle input_register remainders st =
     (let st = emit (map (\<lambda>q. Gate (X q)) (butlast remainders)) st;
          st = (if oracle_given oracle then
                  (let qubits_oracle =
                         (if \<not> list_given qubits_oracle then input_register else the qubits_oracle)
                   in emit [Append_oracle (the oracle) 0 qubits_oracle] st)
                else emit [Append_mcz (multi_control_z (length remainders - 1))
                             (butlast remainders)] st)
      in emit (map (\<lambda>q. Gate (X q)) (butlast remainders)) st)"

subsection \<open>oracle_multiples\<close>

text \<open>
  \<open>np.ceil(np.log2(k)).astype(int)\<close> for \<open>k \<ge> 1\<close>: the least \<open>c\<close> with \<open>k \<le> 2 ^ c\<close>.
\<close>

fun ceil_log2 :: "nat \<Rightarrow> nat" where
  "ceil_log2 n = (if n \<le> 1 then 0 else Suc (ceil_log2 ((n + 1) div 2)))"

declare ceil_log2.simps [simp del]

text \<open>
  The part of the builder the two files share, after the circuit has been created:
  the Hadamard gates, the fold-in loop, the transforms around the marking step
  \<open>mark\<close>, and the fold-out loop.
\<close>

definition build_oracle ::
  "int \<Rightarrow> nat \<Rightarrow> nat \<Rightarrow> bool \<Rightarrow> (qubit list \<Rightarrow> qubit list \<Rightarrow> build_state \<Rightarrow> build_state) \<Rightarrow>
   build_state \<Rightarrow> build_state" where
  "build_oracle k nqubits_input approx_QFT init_H mark st =
     (let n_remainders = ceil_log2 (nat k);
          input_register = map Input [0 ..< nqubits_input];
          remainders = map Remainders [0 ..< n_remainders + 1];
          range_remainders = [1 ..< length remainders + 1];
          ancilla = [Ancilla 0];
          st = (if init_H then emit (map (\<lambda>q. Gate (H q)) input_register) st else st);
          st = emit (map (\<lambda>q. Gate (H q)) remainders) st;
          list_remainders = get_remainders_power_2 k (int nqubits_input - 1);
          st = st\<lparr>circuits_sums := Map.empty\<rparr>;
          st = fold_in k approx_QFT input_register remainders range_remainders ancilla
                 (List.enumerate 0 list_remainders) st;
          st = emit [Gate (QFT (length remainders) approx_QFT True remainders)] st;
          st = mark input_register remainders st;
          st = emit [Gate (QFT (length remainders) approx_QFT False remainders)] st;
          st = fold_out k approx_QFT input_register remainders range_remainders ancilla
                 (List.enumerate 0 list_remainders) st
      in emit [Gate (QFT (length remainders) approx_QFT True remainders)] st)"

definition new_circuit :: "nat option \<Rightarrow> build_state" where
  "new_circuit classic_multiples =
     \<lparr>circuits_sums = Map.empty, calls = [], classical = classic_multiples, circuit = [],
      raised = None\<rparr>"

definition result :: "build_state \<Rightarrow> error + main_op list" where
  "result st = (case raised st of Some e \<Rightarrow> Inl e | None \<Rightarrow> Inr (circuit st))"

text \<open>
  \<open>oracle_multiples\<close> of \<open>code/multiples_functions.py\<close>; \<open>oracle_multiples_state\<close> is
  the state in which it returns or raises.
\<close>

definition oracle_multiples_state ::
  "int \<Rightarrow> nat \<Rightarrow> nat \<Rightarrow> ext_circuit option \<Rightarrow> qubit list option \<Rightarrow> qubit list option \<Rightarrow>
   int list option \<Rightarrow> bool \<Rightarrow> bool option \<Rightarrow> build_state" where
  "oracle_multiples_state k nqubits_input approx_QFT oracle qubits_oracle qubits_control
     state_control init_H classic_register =
     (let classic_register = (case classic_register of None \<Rightarrow> init_H | Some b \<Rightarrow> b);
          st = (if classic_register then new_circuit (Some nqubits_input) else new_circuit None)
      in build_oracle k nqubits_input approx_QFT init_H
           (mark_multiples oracle qubits_oracle qubits_control state_control) st)"

definition oracle_multiples ::
  "int \<Rightarrow> nat \<Rightarrow> nat \<Rightarrow> ext_circuit option \<Rightarrow> qubit list option \<Rightarrow> qubit list option \<Rightarrow>
   int list option \<Rightarrow> bool \<Rightarrow> bool option \<Rightarrow> error + main_op list" where
  "oracle_multiples k nqubits_input approx_QFT oracle qubits_oracle qubits_control
     state_control init_H classic_register =
     result (oracle_multiples_state k nqubits_input approx_QFT oracle qubits_oracle
               qubits_control state_control init_H classic_register)"




subsection \<open>Bookkeeping of a build\<close>

text \<open>
  The calls of \<open>c_phase_add_mod_K\<close> a loop makes for a list of addends, after the calls
  \<open>cs\<close>: one call for each addend that has not been called for.
\<close>

fun record_calls :: "int list \<Rightarrow> int list \<Rightarrow> int list" where
  "record_calls cs [] = cs"
| "record_calls cs (x # xs) = record_calls (if x \<in> set cs then cs else cs @ [x]) xs"


text \<open>
  The invariant of the dictionary: no addend is called for twice, every key has been
  called for, every call that returned has its key, every adder of the dictionary
  records the call that built it, and every adder appended to the circuit is the adder
  the dictionary holds for the addend of the call that built it.
\<close>

definition cache_inv :: "build_state \<Rightarrow> bool" where
  "cache_inv st \<longleftrightarrow>
     distinct (calls st) \<and> dom (circuits_sums st) \<subseteq> set (calls st) \<and>
     (raised st = None \<longrightarrow> set (calls st) \<subseteq> dom (circuits_sums st)) \<and>
     (\<forall>v a. circuits_sums st v = Some a \<longrightarrow>
        built_by a < length (calls st) \<and> calls st ! built_by a = v) \<and>
     (\<forall>a qs. Append_adder a qs \<in> set (circuit st) \<longrightarrow>
        built_by a < length (calls st) \<and> circuits_sums st (calls st ! built_by a) = Some a)"


text \<open>The adders appended to a circuit, each with the qubits it is appended on.\<close>

fun adders :: "main_op list \<Rightarrow> (adder \<times> qubit list) list" where
  "adders [] = []"
| "adders (Append_adder a qs # ops) = (a, qs) # adders ops"
| "adders (Gate g # ops) = adders ops"
| "adders (Append_mcz c qs # ops) = adders ops"
| "adders (Append_oracle c n qs # ops) = adders ops"


section \<open>The action of a circuit on the states of its qubits\<close>

text \<open>
  The gates that the functions above append are those of the Qiskit library, which is not
  part of the repository.  Modelled from the library's documentation: an assignment gives
  every qubit a bit, a state gives every assignment an amplitude; \<open>p\<close> and \<open>cp\<close> multiply
  the amplitude of an assignment by \<open>exp(i * theta)\<close> when the qubit (for \<open>cp\<close>, both qubits)
  is 1; \<open>x\<close> and \<open>cx\<close> permute the assignments; \<open>h\<close> is the Hadamard gate;
  \<open>QFT(num_qubits=n, do_swaps=False, approximation_degree=0)\<close> sends the basis state in
  which the register holds \<open>x\<close> to the superposition in which an assignment \<open>tau\<close> of the
  register has the amplitude \<open>exp(2 * pi * i * x * rev(tau) / 2^n) / sqrt(2^n)\<close>, where
  \<open>rev\<close> reads the register with its qubits in reversed order (the transform without its
  final swaps), and \<open>inverse=True\<close> is the adjoint.  A register is a list of qubits, least
  significant first.  A transform with a positive approximation degree, on a number of
  qubits other than \<open>num_qubits\<close>, or on a list with a repeated qubit is not given a
  meaning: \<open>run\<close> is \<open>None\<close> there.
\<close>

type_synonym 'q assignment = "'q \<Rightarrow> bool"
type_synonym 'q state = "'q assignment \<Rightarrow> complex"

definition basis :: "'q assignment \<Rightarrow> 'q state" where
  "basis \<sigma> = (\<lambda>\<tau>. if \<tau> = \<sigma> then 1 else 0)"

definition put :: "'q \<Rightarrow> bool \<Rightarrow> 'q assignment \<Rightarrow> 'q assignment" where
  "put q b \<sigma> = (\<lambda>q'. if q' = q then b else \<sigma> q')"

fun reg_val :: "'q list \<Rightarrow> 'q assignment \<Rightarrow> nat" where
  "reg_val [] \<sigma> = 0"
| "reg_val (q # qs) \<sigma> = (if \<sigma> q then 1 else 0) + 2 * reg_val qs \<sigma>"

fun set_reg :: "'q list \<Rightarrow> nat \<Rightarrow> 'q assignment \<Rightarrow> 'q assignment" where
  "set_reg [] x \<sigma> = \<sigma>"
| "set_reg (q # qs) x \<sigma> = put q (odd x) (set_reg qs (x div 2) \<sigma>)"

fun rev_val :: "'q list \<Rightarrow> 'q assignment \<Rightarrow> nat" where
  "rev_val [] \<sigma> = 0"
| "rev_val (q # qs) \<sigma> = (if \<sigma> q then 2 ^ length qs else 0) + rev_val qs \<sigma>"

definition turn :: "int \<Rightarrow> nat \<Rightarrow> complex" where
  "turn a N = cis (2 * pi * real_of_int a / real N)"

definition qft :: "bool \<Rightarrow> 'q list \<Rightarrow> 'q state \<Rightarrow> 'q state" where
  "qft inv' qs \<psi> =
     (\<lambda>\<tau>. (\<Sum>x < 2 ^ length qs.
              (if inv'
               then turn (- (int (reg_val qs \<tau>) * int (rev_val qs (set_reg qs x \<tau>)))) (2 ^ length qs)
               else turn (int x * int (rev_val qs \<tau>)) (2 ^ length qs))
              * \<psi> (set_reg qs x \<tau>))
          / complex_of_real (sqrt (2 ^ length qs)))"

fun apply_gate :: "'q gate \<Rightarrow> 'q state \<Rightarrow> 'q state option" where
  "apply_gate (P \<theta> q) \<psi> = Some (\<lambda>\<tau>. (if \<tau> q then cis \<theta> else 1) * \<psi> \<tau>)"
| "apply_gate (CP \<theta> c t) \<psi> = Some (\<lambda>\<tau>. (if \<tau> c \<and> \<tau> t then cis \<theta> else 1) * \<psi> \<tau>)"
| "apply_gate (X q) \<psi> = Some (\<lambda>\<tau>. \<psi> (put q (\<not> \<tau> q) \<tau>))"
| "apply_gate (CX c t) \<psi> = Some (\<lambda>\<tau>. \<psi> (if \<tau> c then put t (\<not> \<tau> t) \<tau> else \<tau>))"
| "apply_gate (H q) \<psi> =
     Some (\<lambda>\<tau>. (\<psi> (put q False \<tau>) + (if \<tau> q then - 1 else 1) * \<psi> (put q True \<tau>))
                / complex_of_real (sqrt 2))"
| "apply_gate (QFT n a inv' qs) \<psi> =
     (if a = 0 \<and> n = length qs \<and> distinct qs then Some (qft inv' qs \<psi>) else None)"

fun run :: "'q circuit \<Rightarrow> 'q state \<Rightarrow> 'q state option" where
  "run [] \<psi> = Some \<psi>"
| "run (g # gs) \<psi> = (case apply_gate g \<psi> of None \<Rightarrow> None | Some \<psi>' \<Rightarrow> run gs \<psi>')"

fun brev :: "nat \<Rightarrow> nat \<Rightarrow> nat" where
  "brev 0 y = 0"
| "brev (Suc w) y = (if odd y then 2 ^ w else 0) + brev w (y div 2)"

definition agree_off :: "'q list \<Rightarrow> 'q assignment \<Rightarrow> 'q assignment \<Rightarrow> bool" where
  "agree_off qs \<tau> \<sigma> = (\<forall>q. q \<notin> set qs \<longrightarrow> \<tau> q = \<sigma> q)"

definition phase_state :: "'q list \<Rightarrow> 'q assignment \<Rightarrow> 'q state" where
  "phase_state qs \<sigma> =
     (\<lambda>\<tau>. if agree_off qs \<tau> \<sigma>
          then turn (int (reg_val qs \<sigma>) * int (rev_val qs \<tau>)) (2 ^ length qs)
               / complex_of_real (sqrt (2 ^ length qs))
          else 0)"

definition addN :: "nat \<Rightarrow> nat \<Rightarrow> int \<Rightarrow> nat" where
  "addN w y d = nat ((int y + d) mod 2 ^ w)"

definition slot :: "'q list \<Rightarrow> 'q \<Rightarrow> 'q assignment \<Rightarrow> nat \<Rightarrow> bool \<Rightarrow> 'q assignment" where
  "slot t anc \<sigma> y b = set_reg t y (put anc b \<sigma>)"

section \<open>Properties of get_remainders_power_2\<close>

lemma nth_concat_replicate:
  "xs \<noteq> [] \<Longrightarrow> i < n * length xs \<Longrightarrow> concat (replicate n xs) ! i = xs ! (i mod length xs)"
proof (induction n arbitrary: i)
  case 0 then show ?case by simp
next
  case (Suc n)
  show ?case
  proof (cases "i < length xs")
    case True then show ?thesis by (simp add: nth_append)
  next
    case False
    then have "i - length xs < n * length xs" using Suc.prems by simp
    from Suc.IH[OF Suc.prems(1) this] False show ?thesis
      by (simp add: nth_append le_mod_geq)
  qed
qed

lemma length_concat_replicate: "length (concat (replicate n xs)) = n * length xs"
  by (induction n) auto

text \<open>Doubling a remainder and subtracting the modulus once is reduction modulo \<open>K\<close>.\<close>

lemma double_mod:
  fixes K :: int assumes "0 < K"
  shows "(let c = (2 ^ n mod K) * 2 in if c \<ge> K then c - K else c) = 2 ^ Suc n mod K"
proof -
  let ?r = "2 ^ n mod K"
  have r: "0 \<le> ?r" "?r < K" using assms by simp_all
  have e: "2 ^ Suc n mod K = (?r * 2) mod K"
    by (simp add: mod_mult_right_eq mult.commute)
  show ?thesis
  proof (cases "?r * 2 \<ge> K")
    case True
    then have "(?r * 2) mod K = ?r * 2 - K" using r
      by (smt (verit) mod_pos_pos_trivial minus_mod_self2 mod_diff_right_eq)
    then show ?thesis using True e by (simp add: Let_def)
  next
    case False
    then have "(?r * 2) mod K = ?r * 2" using r by simp
    then show ?thesis using False e by (simp add: Let_def)
  qed
qed

text \<open>Once \<open>2 ^ p\<close> is congruent to 1, the remainders repeat with period \<open>p\<close>.\<close>

lemma period_mod:
  fixes K :: int assumes "2 ^ p mod K = 1"
  shows "2 ^ i mod K = 2 ^ (i mod p) mod K"
proof -
  have "(2::int) ^ i = (2 ^ p) ^ (i div p) * 2 ^ (i mod p)"
    by (metis power_add power_mult mult_div_mod_eq)
  then have "2 ^ i mod K = ((2 ^ p mod K) ^ (i div p) mod K) * (2 ^ (i mod p) mod K) mod K"
    by (simp add: mod_mult_eq power_mod)
  then show ?thesis using assms by (simp add: mod_mult_eq)
qed

lemma nth_pow2_remainders: "j < n \<Longrightarrow> pow2_remainders K n ! j = 2 ^ j mod K"
  by (simp add: pow2_remainders_def)

lemma remainders_loop_correct:
  "3 \<le> K \<Longrightarrow> 2 \<le> p \<Longrightarrow> p \<le> pw + 1 \<Longrightarrow> rs = pow2_remainders K (nat p) \<Longrightarrow>
   remainders_loop K pw p rs = pow2_remainders K (nat (pw + 1))"
proof (induction K pw p rs rule: remainders_loop.induct)
  case (1 K pw p rs)
  show ?case
  proof (cases "p < pw + 1")
    case False
    then have "p = pw + 1" using "1.prems" by simp
    then show ?thesis using "1.prems" by (subst remainders_loop.simps) simp
  next
    case True
    define n where "n = nat p - 1"
    have np: "nat p = Suc n" using "1.prems" by (simp add: n_def)
    have rs_eq: "rs = pow2_remainders K (Suc n)" using "1.prems" np by simp
    have len: "length rs = Suc n" using "1.prems" np by (simp add: pow2_remainders_def)
    have lst: "last rs = 2 ^ n mod K" using "1.prems" np by (simp add: pow2_remainders_def)
    define c where "c = (let c = last rs * 2 in if c \<ge> K then c - K else c)"
    have c: "c = 2 ^ Suc n mod K" unfolding c_def lst using double_mod[of K n] "1.prems" by simp
    show ?thesis
    proof (cases "c = 1")
      case False
      have cdef2: "c = (if K \<le> last rs * 2 then last rs * 2 - K else last rs * 2)"
        by (simp add: c_def Let_def)
      have app: "rs @ [c] = pow2_remainders K (nat (p + 1))"
        using "1.prems" np c by (simp add: pow2_remainders_def nat_add_distrib)
      have "remainders_loop K pw (p + 1) (rs @ [c]) = pow2_remainders K (nat (pw + 1))"
        using "1.IH"[OF True refl cdef2 False "1.prems"(1) _ _ app] True "1.prems" by simp
      then show ?thesis using True False
        by (subst remainders_loop.simps) (simp add: c_def Let_def)
    next
      case c1: True
      have per: "2 ^ Suc n mod K = 1" using c c1 by simp
      define reps where "reps = nat (pw div int (length rs) + 1)"
      have res: "remainders_loop K pw p rs = take (nat (pw + 1)) (concat (replicate reps rs))"
        using True c1 by (subst remainders_loop.simps) (simp add: c_def Let_def list_times_def reps_def)
      have pw0: "0 \<le> pw" using True "1.prems" by simp
      have "int (nat pw div Suc n) = int (nat pw) div int (Suc n)"
        by (rule zdiv_int)
      then have "pw div int (Suc n) = int (nat pw div Suc n)"
        using pw0 by simp
      then have reps: "reps = nat pw div Suc n + 1"
        unfolding reps_def len by simp
      have "nat pw < reps * Suc n"
        unfolding reps using dividend_less_div_times[of "Suc n" "nat pw"] by simp
      then have big: "nat (pw + 1) \<le> reps * length rs" using pw0 len by (simp add: nat_add_distrib)
      have "take (nat (pw + 1)) (concat (replicate reps rs)) = pow2_remainders K (nat (pw + 1))"
      proof (rule nth_equalityI)
        show "length (take (nat (pw + 1)) (concat (replicate reps rs))) = length (pow2_remainders K (nat (pw + 1)))"
          using big by (simp add: length_concat_replicate pow2_remainders_def)
      next
        fix i assume "i < length (take (nat (pw + 1)) (concat (replicate reps rs)))"
        then have i: "i < nat (pw + 1)" "i < reps * length rs" by (simp_all add: length_concat_replicate)
        have ne: "rs \<noteq> []" using len by auto
        have "concat (replicate reps rs) ! i = rs ! (i mod Suc n)"
          using nth_concat_replicate[OF ne i(2)] len by simp
        also have "\<dots> = 2 ^ (i mod Suc n) mod K"
          unfolding rs_eq by (rule nth_pow2_remainders) simp
        also have "\<dots> = 2 ^ i mod K" using period_mod[OF per, of i] by simp
        finally show "take (nat (pw + 1)) (concat (replicate reps rs)) ! i = pow2_remainders K (nat (pw + 1)) ! i"
          using i by (simp add: pow2_remainders_def)
      qed
      then show ?thesis using res by simp
    qed
  qed
qed


lemma get_remainders_power_2_eq:
  assumes "3 \<le> K" "1 \<le> p"
  shows "get_remainders_power_2 K p = pow2_remainders K (nat (p + 1))"
proof -
  have "[1, 2] = pow2_remainders K (nat 2)"
    using assms(1) by (simp add: pow2_remainders_def numeral_2_eq_2)
  then show ?thesis
    unfolding get_remainders_power_2_def
    using remainders_loop_correct[of K 2 p "[1, 2]"] assms by simp
qed

text \<open>
  C2 (amended).  For every modulus \<open>K \<ge> 3\<close> and every exponent bound \<open>p \<ge> 1\<close>,
  \<open>get_remainders_power_2 K p\<close> returns exactly \<open>p + 1\<close> elements, the element at
  every index \<open>i \<le> p\<close> is \<open>2 ^ i mod K\<close>, and every such element is a non-negative
  integer strictly less than \<open>K\<close>.
\<close>

theorem get_remainders_power_2_correct:
  assumes "3 \<le> K" "1 \<le> p"
  shows "length (get_remainders_power_2 K p) = nat (p + 1) \<and>
         (\<forall>i. int i \<le> p \<longrightarrow>
            get_remainders_power_2 K p ! i = 2 ^ i mod K \<and>
            0 \<le> get_remainders_power_2 K p ! i \<and> get_remainders_power_2 K p ! i < K)"
proof -
  have K: "0 < K" using assms(1) by simp
  show ?thesis
    unfolding get_remainders_power_2_eq[OF assms]
    using assms(2) K by (auto simp: pow2_remainders_def)
qed

theorem get_remainders_power_2_correct_witness:
  "(3::int) \<le> 7 \<and> (1::int) \<le> 10 \<and>
   get_remainders_power_2 7 10 = [1, 2, 4, 1, 2, 4, 1, 2, 4, 1, 2] \<and>
   length (get_remainders_power_2 7 10) = 11 \<and>
   get_remainders_power_2 7 10 ! 5 = 2 ^ 5 mod 7"
proof -
  have e: "get_remainders_power_2 7 10 = [1, 2, 4, 1, 2, 4, 1, 2, 4, 1, 2]"
    by code_simp
  show ?thesis
    using get_remainders_power_2_correct[of 7 10] e by simp
qed

text \<open>
  The claim as stated fails in three ways: with \<open>p = 0\<close> the seed \<open>[1, 2]\<close> is returned,
  two elements rather than one; with \<open>K = 2\<close> the element at index 1 is 2, not
  \<open>2 ^ 1 mod 2 = 0\<close>; and with \<open>K = 4\<close> the element at index 2 is 0, which is not
  positive.
\<close>

theorem get_remainders_power_2_counterexample:
  "length (get_remainders_power_2 3 0) \<noteq> nat (0 + 1) \<and>
   get_remainders_power_2 2 1 ! 1 \<noteq> 2 ^ 1 mod 2 \<and>
   \<not> 0 < get_remainders_power_2 4 2 ! 2"
  by (simp add: get_remainders_power_2_def remainders_loop.simps)


section \<open>Properties of get_angles_phase_addition\<close>

lemma length_bin_digits: "n < 2 ^ L \<Longrightarrow> length (bin_digits n) \<le> L"
proof (induction L arbitrary: n)
  case 0
  then show ?case by (simp add: bin_digits.simps)
next
  case (Suc L)
  show ?case
  proof (cases "n = 0")
    case True then show ?thesis by (simp add: bin_digits.simps)
  next
    case False
    have "n div 2 < 2 ^ L" using Suc.prems by simp
    from Suc.IH[OF this] False show ?thesis
      by (subst bin_digits.simps) simp
  qed
qed

lemma bin_digits_pad:
  "n < 2 ^ L \<Longrightarrow> replicate (L - length (bin_digits n)) CHR ''0'' @ bin_digits n = bit_string n L"
proof (induction L arbitrary: n)
  case 0
  then show ?case by (simp add: bin_digits.simps bit_string_def)
next
  case (Suc L)
  show ?case
  proof (cases "n = 0")
    case True
    then show ?thesis by (simp add: bin_digits.simps bit_string_def map_replicate_const del: upt_Suc replicate_Suc)
  next
    case False
    have lt: "n div 2 < 2 ^ L" using Suc.prems by simp
    have len: "length (bin_digits (n div 2)) \<le> L" by (rule length_bin_digits[OF lt])
    have bd: "bin_digits n = bin_digits (n div 2) @ [if n mod 2 = 1 then CHR ''1'' else CHR ''0'']"
      using False by (subst bin_digits.simps) simp
    have "bit_string n (Suc L) = bit_string (n div 2) L @ [if n mod 2 = 1 then CHR ''1'' else CHR ''0'']"
      by (auto simp: bit_string_def bit_Suc[symmetric] Suc_diff_Suc bit_0 odd_iff_mod_2_eq_one)
    then show ?thesis
      using Suc.IH[OF lt] len by (simp add: bd Suc_diff_le)
  qed
qed


lemma length_bit_string [simp]: "length (bit_string n w) = w"
  by (simp add: bit_string_def)

lemma nth_bit_string: "j < w \<Longrightarrow> bit_string n w ! j = (if bit n (w - 1 - j) then CHR ''1'' else CHR ''0'')"
  by (simp add: bit_string_def)



lemma to_binary_fits:
  assumes "0 \<le> m" "m < 2 ^ w" "0 < w"
  shows "to_binary m (Some w) = Some (bit_string (nat m) w)"
proof (cases "m = 0")
  case True
  have "replicate (w - 1) CHR ''0'' @ ''0'' = replicate w CHR ''0''"
    using assms(3) by (cases w) (simp_all add: replicate_append_same)
  moreover have "bit_string 0 w = replicate w CHR ''0''"
    by (simp add: bit_string_def map_replicate_const)
  ultimately show ?thesis using True assms(3)
    by (simp add: to_binary_def bin_drop2_def Suc_le_eq not_less)
next
  case False
  have lt: "nat m < 2 ^ w" using assms by (simp add: nat_less_iff)
  show ?thesis using False assms length_bin_digits[OF lt] bin_digits_pad[OF lt]
    by (simp add: to_binary_def bin_drop2_def not_less)
qed


lemma angle_sum_Some:
  "\<forall>j \<in> set js. j < length s \<Longrightarrow>
   angle_sum (Some s) e0 js = Inr (\<Sum>j\<leftarrow>js. if s ! j = CHR ''1'' then 2 powi (e0 - int j) else 0)"
  by (induction js) (simp_all add: bind_def subscript_def)

lemma angle_list_Some:
  "length s = w \<Longrightarrow>
   angle_list (Some s) w is =
     Inr (map (\<lambda>i. (\<Sum>j\<leftarrow>[w - i - 1 ..< w]. if s ! j = CHR ''1'' then 2 powi (int w - int i - 1 - int j) else 0) * pi) is)"
  by (induction "is") (simp_all add: bind_def angle_sum_Some)



lemma powi_diff_nat: "k \<le> i \<Longrightarrow> (2::real) powi (int k - int i) = 2 ^ k / 2 ^ i"
  by (simp add: power_int_diff)

lemma bit_sum_mod:
  "(\<Sum>k\<le>i. if bit n k then 2 powi (int k - int i) else 0) = real (n mod 2 ^ Suc i) / 2 ^ i" for n :: nat
proof -
  have "n mod 2 ^ Suc i = (\<Sum>k = 0..<Suc i. push_bit k (of_bool (bit n k)))"
    using take_bit_sum[of "Suc i" n] by (simp add: take_bit_eq_mod)
  also have "\<dots> = (\<Sum>k = 0..<Suc i. if bit n k then 2 ^ k else 0)"
    by (rule sum.cong) (simp_all add: push_bit_eq_mult)
  finally have "real (n mod 2 ^ Suc i) = real (\<Sum>k = 0..<Suc i. if bit n k then 2 ^ k else 0)"
    by (rule arg_cong)
  also have "\<dots> = (\<Sum>k = 0..<Suc i. if bit n k then 2 ^ k else 0)"
    unfolding of_nat_sum by (rule sum.cong) simp_all
  finally have r: "real (n mod 2 ^ Suc i) = (\<Sum>k = 0..<Suc i. if bit n k then 2 ^ k else 0)" .
  have "real (n mod 2 ^ Suc i) / 2 ^ i = (\<Sum>k = 0..<Suc i. (if bit n k then 2 ^ k else 0) / 2 ^ i)"
    by (simp only: r sum_divide_distrib)
  also have "\<dots> = (\<Sum>k = 0..<Suc i. if bit n k then 2 powi (int k - int i) else 0)"
    by (rule sum.cong) (simp_all add: powi_diff_nat)
  also have "{0..<Suc i} = {..i}" by auto
  finally show ?thesis by (rule sym)
qed

lemma string_sum_bits:
  assumes "i < w"
  shows "(\<Sum>j\<leftarrow>[w - i - 1 ..< w]. if bit_string n w ! j = CHR ''1'' then 2 powi (int w - int i - 1 - int j) else 0)
         = (\<Sum>k\<le>i. if bit n k then (2::real) powi (int k - int i) else 0)"
proof -
  have "(\<Sum>j\<leftarrow>[w - i - 1 ..< w]. if bit_string n w ! j = CHR ''1'' then 2 powi (int w - int i - 1 - int j) else 0)
        = (\<Sum>j \<in> {w - i - 1 ..< w}. if bit_string n w ! j = CHR ''1'' then (2::real) powi (int w - int i - 1 - int j) else 0)"
    by (simp add: interv_sum_list_conv_sum_set_nat)
  also have "\<dots> = (\<Sum>k \<in> {..i}. if bit n k then (2::real) powi (int k - int i) else 0)"
  proof (rule sum.reindex_bij_witness[where i = "\<lambda>k. w - 1 - k" and j = "\<lambda>j. w - 1 - j"])
    fix j assume "j \<in> {w - i - 1 ..< w}"
    then have j: "w - i - 1 \<le> j" "j < w" by simp_all
    show "w - 1 - (w - 1 - j) = j" using j by simp
    show "w - 1 - j \<in> {..i}" using j assms by auto
    have e: "int (w - 1 - j) - int i = int w - int i - 1 - int j" using j by (simp add: of_nat_diff)
    show "(if bit n (w - 1 - j) then 2 powi (int (w - 1 - j) - int i) else 0)
          = (if bit_string n w ! j = CHR ''1'' then (2::real) powi (int w - int i - 1 - int j) else 0)"
      unfolding e nth_bit_string[OF j(2)] by simp
  next
    fix k assume "k \<in> {..i}"
    then have k: "k \<le> i" by simp
    show "w - 1 - (w - 1 - k) = k" using k assms by simp
    show "w - 1 - k \<in> {w - i - 1 ..< w}" using k assms by auto
  qed
  finally show ?thesis .
qed

lemma angle_list_cong:
  "(\<And>i. i \<in> set is \<Longrightarrow> f i = g i) \<Longrightarrow> Inr (map f is) = (Inr (map g is) :: error + real list)"
  by simp

lemma get_angles_fits:
  assumes "0 \<le> m" "m < 2 ^ w"
  shows "get_angles_phase_addition m w =
           Inr (map (\<lambda>i. (\<Sum>k\<le>i. if bit (nat m) k then 2 powi (int k - int i) else 0) * pi) [0..<w])"
proof (cases "w = 0")
  case True
  then show ?thesis by (simp add: get_angles_phase_addition_def)
next
  case False
  then have tb: "to_binary m (Some w) = Some (bit_string (nat m) w)"
    using to_binary_fits[OF assms] by simp
  show ?thesis
    unfolding get_angles_phase_addition_def tb Let_def angle_list_Some[OF length_bit_string]
    by (rule angle_list_cong) (simp only: string_sum_bits set_upt atLeastLessThan_iff)
qed


lemma eval_angles_2_2: "get_angles_phase_addition 2 2 = Inr [0, pi]"
  by (simp add: get_angles_phase_addition_def to_binary_def bin_drop2_def bin_digits.simps
      bind_def subscript_def upt_rec Let_def)

text \<open>
  C3 (amended).  For every addend \<open>m\<close> with \<open>0 \<le> m < 2 ^ w\<close>, entry \<open>i\<close> of the angle
  vector returned by \<open>get_angles_phase_addition m w\<close> is \<open>\<pi>\<close> times the sum, over the
  set bits \<open>k \<le> i\<close> of \<open>m\<close> (bit \<open>k\<close> having weight \<open>2 ^ k\<close>), of \<open>2 ^ (k - i)\<close>: each
  wire accumulates a contribution from every less-significant-or-equal set bit.
\<close>

theorem get_angles_phase_addition_closed_form:
  assumes "0 \<le> m" "m < 2 ^ w"
  shows "get_angles_phase_addition m w =
           Inr (map (\<lambda>i. pi * (\<Sum>k\<le>i. if bit m k then 2 powi (int k - int i) else 0)) [0..<w])"
proof -
  have "bit (nat m) k = bit m k" for k using assms(1) by (simp add: bit_nat_iff)
  then show ?thesis
    unfolding get_angles_fits[OF assms] by (simp add: mult.commute)
qed

theorem get_angles_phase_addition_closed_form_witness:
  "(0::int) \<le> 5 \<and> (5::int) < 2 ^ 3 \<and>
   get_angles_phase_addition 5 3 = Inr [pi, pi / 2, 5 * pi / 4]"
  using get_angles_phase_addition_closed_form[of 5 3]
  by (simp add: upt_rec atMost_Suc bit_numeral_simps numeral_3_eq_3 bit_Suc bit_0 algebra_simps)

text \<open>
  The closed form of the specification sums over the bits \<open>j \<ge> i\<close> with the exponent
  \<open>w - 1 - i - j\<close>.  At \<open>m = 2\<close>, \<open>w = 2\<close> the code returns \<open>[0, \<pi>]\<close>, which is neither
  reading of that form.
\<close>

theorem get_angles_phase_addition_counterexample:
  "get_angles_phase_addition 2 2 = Inr [0, pi] \<and>
   [0, pi] \<noteq> map (spec_angle 2 2) [0..<2] \<and>
   [0, pi] \<noteq> map (spec_angle_msb 2 2) [0..<2]"
proof -
  have s: "{0..<2::nat} = {0, 1}" by auto
  have "spec_angle 2 2 0 = pi"
    by (simp add: spec_angle_def s bit_Suc bit_0)
  moreover have "spec_angle_msb 2 2 0 = 2 * pi"
    by (simp add: spec_angle_msb_def s bit_Suc bit_0)
  ultimately show ?thesis
    by (simp add: eval_angles_2_2 upt_rec)
qed




lemma get_angles_mod:
  assumes "0 \<le> m" "m < 2 ^ w"
  shows "get_angles_phase_addition m w =
           Inr (map (\<lambda>i. real (nat m mod 2 ^ Suc i) / 2 ^ i * pi) [0..<w])"
  unfolding get_angles_fits[OF assms] bit_sum_mod ..










text \<open>
  C9.  An addend that does not fit must make the build fail before any gate is appended.
  \<open>to_binary\<close> only prints a message and returns \<open>None\<close>; on a register of width 0 the
  comprehension of \<open>get_angles_phase_addition\<close> never subscripts it, so the addend 1
  gets the empty angle vector and \<open>phase_add\<close> returns normally.  (On a register of
  width at least 1 the failure is the \<open>TypeError\<close> of subscripting \<open>None\<close>, see
  \<open>get_angles_too_wide\<close>.)
\<close>

theorem phase_add_width_zero:
  "to_binary 1 (Some 0) = None \<and>
   get_angles_phase_addition 1 0 = Inr [] \<and>
   phase_add ([] :: nat circuit) [] 1 False = Inr []"
proof -
  have t: "to_binary 1 (Some 0) = None"
    by (simp add: to_binary_def bin_drop2_def bin_digits.simps)
  have g: "get_angles_phase_addition 1 0 = Inr []"
    by (simp add: get_angles_phase_addition_def)
  have "phase_add ([] :: nat circuit) [] 1 False = Inr []"
    by (simp add: phase_add_def g bind_def)
  with t g show ?thesis by simp
qed

section \<open>Properties of c_phase_add_mod_K\<close>

lemma include_QFTs_eq:
  "c_phase_add_mod_K target_register control ancilla_qubit num_sum K approx_QFT True =
     (case c_phase_add_mod_K target_register control ancilla_qubit num_sum K approx_QFT False of
        Inl e \<Rightarrow> Inl e
      | Inr ops \<Rightarrow>
          Inr ([QFT (length target_register) approx_QFT False target_register] @ ops @
               [QFT (length target_register) approx_QFT True target_register]))"
proof (cases "get_angles_phase_addition num_sum (length target_register)")
  case (Inl e)
  then show ?thesis
    by (simp add: c_phase_add_mod_K_def c_phase_add_def bind_def Let_def)
next
  case a: (Inr angles)
  show ?thesis
  proof (cases "get_angles_phase_addition K (length target_register)")
    case (Inl e)
    then show ?thesis using a
      by (simp add: c_phase_add_mod_K_def c_phase_add_def phase_add_def bind_def Let_def)
  next
    case b: (Inr anglesK)
    show ?thesis using a b
      by (simp add: c_phase_add_mod_K_def c_phase_add_def phase_add_def last_qubit_def
          bind_def Let_def)
  qed
qed


lemma times_minus_one: "(*) (- 1 :: real) = uminus"
  by (rule ext) simp

lemma c_phase_add_mod_K_ops:
  assumes "get_angles_phase_addition num_sum (length t) = Inr a"
    and "get_angles_phase_addition K (length t) = Inr b"
    and "t \<noteq> []"
  shows "c_phase_add_mod_K t c anc num_sum K ap inc =
     Inr ((if inc then [QFT (length t) ap False t] else []) @
          map (\<lambda>i. CP (a ! i) c (t ! i)) [0..<length t] @
          map (\<lambda>i. P (map uminus b ! i) (t ! i)) [0..<length t] @
          [QFT (length t) ap True t, CX (t ! (length t - 1)) anc, QFT (length t) ap False t] @
          map (\<lambda>i. CP (b ! i) anc (t ! i)) [0..<length t] @
          map (\<lambda>i. CP (map uminus a ! i) c (t ! i)) [0..<length t] @
          [QFT (length t) ap True t, X (t ! (length t - 1)), CX (t ! (length t - 1)) anc,
           X (t ! (length t - 1)), QFT (length t) ap False t] @
          map (\<lambda>i. CP (a ! i) c (t ! i)) [0..<length t] @
          (if inc then [QFT (length t) ap True t] else []))"
  using assms
  by (simp add: c_phase_add_mod_K_def c_phase_add_def phase_add_def last_qubit_def
      bind_def Let_def times_minus_one)

lemma c_phase_add_mod_K_Inr_D:
  assumes "c_phase_add_mod_K t c anc num_sum K ap inc = Inr ops"
  shows "\<exists>a b. get_angles_phase_addition num_sum (length t) = Inr a \<and>
          get_angles_phase_addition K (length t) = Inr b \<and> t \<noteq> []"
proof (cases "get_angles_phase_addition num_sum (length t)")
  case (Inl e)
  then show ?thesis using assms
    by (simp add: c_phase_add_mod_K_def c_phase_add_def bind_def Let_def)
next
  case a: (Inr angles)
  show ?thesis
  proof (cases "get_angles_phase_addition K (length t)")
    case (Inl e)
    then show ?thesis using a assms
      by (simp add: c_phase_add_mod_K_def c_phase_add_def phase_add_def bind_def Let_def)
  next
    case b: (Inr anglesK)
    show ?thesis using a b assms
      by (cases "t = []")
        (simp_all add: c_phase_add_mod_K_def c_phase_add_def phase_add_def last_qubit_def
          bind_def Let_def)
  qed
qed


text \<open>
  C7.  The sequence emitted with \<open>include_QFTs = True\<close> is the sequence emitted with
  \<open>include_QFTs = False\<close> between a first direct and a last inverse transform on the
  target register (and the two builds fail together); and the sequence without the
  outer pair is three stages of phase gates, separated by an inverse transform, the
  gates on the ancilla, and a direct transform.
\<close>

theorem c_phase_add_mod_K_include_QFTs:
  "c_phase_add_mod_K t c anc num_sum K ap True =
     (case c_phase_add_mod_K t c anc num_sum K ap False of
        Inl e \<Rightarrow> Inl e
      | Inr ops \<Rightarrow> Inr ([QFT (length t) ap False t] @ ops @ [QFT (length t) ap True t])) \<and>
   (\<forall>ops. c_phase_add_mod_K t c anc num_sum K ap False = Inr ops \<longrightarrow>
      (\<exists>s1 s2 s3. list_all is_phase_gate (s1 @ s2 @ s3) \<and>
         ops = s1 @ [QFT (length t) ap True t, CX (last t) anc, QFT (length t) ap False t] @
               s2 @ [QFT (length t) ap True t, X (last t), CX (last t) anc, X (last t),
                     QFT (length t) ap False t] @ s3))"
proof (intro conjI allI impI)
  show "c_phase_add_mod_K t c anc num_sum K ap True =
     (case c_phase_add_mod_K t c anc num_sum K ap False of
        Inl e \<Rightarrow> Inl e
      | Inr ops \<Rightarrow> Inr ([QFT (length t) ap False t] @ ops @ [QFT (length t) ap True t]))"
    by (rule include_QFTs_eq)
next
  fix ops assume r: "c_phase_add_mod_K t c anc num_sum K ap False = Inr ops"
  from c_phase_add_mod_K_Inr_D[OF r] obtain a b where
    ab: "get_angles_phase_addition num_sum (length t) = Inr a"
        "get_angles_phase_addition K (length t) = Inr b" "t \<noteq> []"
    by blast
  define s1 where "s1 = map (\<lambda>i. CP (a ! i) c (t ! i)) [0..<length t] @
                        map (\<lambda>i. P (map uminus b ! i) (t ! i)) [0..<length t]"
  define s2 where "s2 = map (\<lambda>i. CP (b ! i) anc (t ! i)) [0..<length t] @
                        map (\<lambda>i. CP (map uminus a ! i) c (t ! i)) [0..<length t]"
  define s3 where "s3 = map (\<lambda>i. CP (a ! i) c (t ! i)) [0..<length t]"
  have top: "t ! (length t - 1) = last t" using ab(3) by (simp add: last_conv_nth)
  have "ops = s1 @ [QFT (length t) ap True t, CX (last t) anc, QFT (length t) ap False t] @
               s2 @ [QFT (length t) ap True t, X (last t), CX (last t) anc, X (last t),
                     QFT (length t) ap False t] @ s3"
    using r unfolding c_phase_add_mod_K_ops[OF ab] top s1_def s2_def s3_def by simp
  moreover have "list_all is_phase_gate (s1 @ s2 @ s3)"
    by (auto simp: s1_def s2_def s3_def list_all_iff is_phase_gate_def)
  ultimately show "\<exists>s1 s2 s3. list_all is_phase_gate (s1 @ s2 @ s3) \<and>
         ops = s1 @ [QFT (length t) ap True t, CX (last t) anc, QFT (length t) ap False t] @
               s2 @ [QFT (length t) ap True t, X (last t), CX (last t) anc, X (last t),
                     QFT (length t) ap False t] @ s3"
    by blast
qed

lemma upt2: "[0..<2] = [0, 1]" by (simp add: upt_rec)

lemma angles_1_2: "get_angles_phase_addition 1 2 = Inr [pi, pi / 2]"
  using get_angles_mod[of 1 2] unfolding upt2 by simp

lemma angles_2_2: "get_angles_phase_addition 2 2 = Inr [0, pi]"
  using get_angles_mod[of 2 2] unfolding upt2 by simp

lemma adder_1_mod_2:
  "c_phase_add_mod_K [1, 2] 0 3 1 2 0 False =
     Inr [CP pi 0 1, CP (pi / 2) 0 2, P (- 0) 1, P (- pi) 2,
          QFT 2 0 True [1, 2], CX 2 3, QFT 2 0 False [1, 2],
          CP 0 3 1, CP pi 3 2, CP (- pi) 0 1, CP (- (pi / 2)) 0 2,
          QFT 2 0 True [1, 2], X 2, CX 2 3, X 2, QFT 2 0 False [1, 2],
          CP pi 0 (1::nat), CP (pi / 2) 0 2]"
proof -
  have a: "get_angles_phase_addition 1 (length [1, 2::nat]) = Inr [pi, pi / 2]"
    using angles_1_2 by (simp add: numeral_2_eq_2)
  have b: "get_angles_phase_addition 2 (length [1, 2::nat]) = Inr [0, pi]"
    using angles_2_2 by (simp add: numeral_2_eq_2)
  have ne: "[1, 2::nat] \<noteq> []" by simp
  show ?thesis
    using c_phase_add_mod_K_ops[OF a b ne, of 0 3 0 False] by (simp add: numeral_2_eq_2)
qed

theorem c_phase_add_mod_K_include_QFTs_witness:
  "c_phase_add_mod_K [1, 2] 0 3 1 2 0 False =
     Inr [CP pi 0 1, CP (pi / 2) 0 2, P (- 0) 1, P (- pi) 2,
          QFT 2 0 True [1, 2], CX 2 3, QFT 2 0 False [1, 2],
          CP 0 3 1, CP pi 3 2, CP (- pi) 0 1, CP (- (pi / 2)) 0 2,
          QFT 2 0 True [1, 2], X 2, CX 2 3, X 2, QFT 2 0 False [1, 2],
          CP pi 0 (1::nat), CP (pi / 2) 0 2] \<and>
   c_phase_add_mod_K [1, 2] 0 3 1 2 0 True =
     Inr [QFT 2 0 False [1, 2],
          CP pi 0 1, CP (pi / 2) 0 2, P (- 0) 1, P (- pi) 2,
          QFT 2 0 True [1, 2], CX 2 3, QFT 2 0 False [1, 2],
          CP 0 3 1, CP pi 3 2, CP (- pi) 0 1, CP (- (pi / 2)) 0 2,
          QFT 2 0 True [1, 2], X 2, CX 2 3, X 2, QFT 2 0 False [1, 2],
          CP pi 0 (1::nat), CP (pi / 2) 0 2,
          QFT 2 0 True [1, 2]]"
  using c_phase_add_mod_K_include_QFTs[of "[1, 2::nat]" 0 3 1 2 0]
  unfolding adder_1_mod_2 by simp

section \<open>Properties of the multi-controlled gate decomposition\<close>

lemma op_pair_c1c2_op: "op_pair (c1c2_op gate n first step pair) = pair"
  by (simp add: c1c2_op_def Let_def)

lemma set_py_sort: "set (py_sort key reverse xs) = set xs"
  by (simp add: py_sort_def)

lemma distinct_py_sort: "distinct (py_sort key reverse xs) = distinct xs"
  by (simp add: py_sort_def)

lemma sorted_py_sort:
  "sorted (map key (py_sort key False xs))" "sorted (rev (map key (py_sort key True xs)))"
  by (simp_all add: py_sort_def rev_map)

lemma set_enum_pairs:
  "set (concat (map (\<lambda>target. map (\<lambda>control. (control, target)) [start ..< target]) [0 ..< n]))
     = {(c, t). start \<le> c \<and> c < t \<and> t < n}"
  by auto

lemma distinct_enum_pairs:
  "distinct (concat (map (\<lambda>target. map (\<lambda>control. (control, target :: nat)) [start ..< target]) [0 ..< n]))"
proof (induction n)
  case 0
  show ?case by simp
next
  case (Suc n)
  have "set (concat (map (\<lambda>target. map (\<lambda>control. (control, target)) [start ..< target]) [0 ..< n]))
          \<inter> set (map (\<lambda>control. (control, n)) [start ..< n]) = {}"
    unfolding set_enum_pairs by auto
  moreover have "distinct (map (\<lambda>control. (control, n)) [start ..< n])"
    by (simp add: distinct_map inj_on_def)
  ultimately show ?case using Suc.IH by simp
qed

text \<open>
  C4 (amended).  Each pass of \<open>_c1c2\<close> emits one operation per pair of its sorted list
  \<open>qubit_pairs\<close>, in that order, and no pair twice.  The forward pass (\<open>step = 1\<close>)
  enumerates every pair with \<open>control < target < n_qubits\<close> and emits them in descending
  order of \<open>control + target\<close>; the reverse pass (any other \<open>step\<close>, in particular
  \<open>- 1\<close>) enumerates only the pairs with \<open>1 \<le> control < target < n_qubits\<close> and emits
  them in ascending order of \<open>control + target\<close>.
\<close>

theorem c1c2_pair_order:
  "map op_pair (c1c2 gate n [] first step) = qubit_pairs n step \<and>
   distinct (qubit_pairs n step) \<and>
   (step = 1 \<longrightarrow>
      set (qubit_pairs n step) = {(c, t). c < t \<and> t < n} \<and>
      sorted (rev (map (\<lambda>e. fst e + snd e) (qubit_pairs n step)))) \<and>
   (step \<noteq> 1 \<longrightarrow>
      set (qubit_pairs n step) = {(c, t). 1 \<le> c \<and> c < t \<and> t < n} \<and>
      sorted (map (\<lambda>e. fst e + snd e) (qubit_pairs n step)))"
proof (intro conjI impI)
  show "map op_pair (c1c2 gate n [] first step) = qubit_pairs n step"
    by (simp add: c1c2_def op_pair_c1c2_op comp_def)
  show "distinct (qubit_pairs n step)"
    unfolding qubit_pairs_def Let_def distinct_py_sort by (rule distinct_enum_pairs)
next
  assume "step = 1"
  then show "set (qubit_pairs n step) = {(c, t). c < t \<and> t < n}"
    unfolding qubit_pairs_def Let_def set_py_sort set_enum_pairs by simp
  show "sorted (rev (map (\<lambda>e. fst e + snd e) (qubit_pairs n step)))"
    using \<open>step = 1\<close> unfolding qubit_pairs_def Let_def by (simp add: sorted_py_sort)
next
  assume "step \<noteq> 1"
  then show "set (qubit_pairs n step) = {(c, t). 1 \<le> c \<and> c < t \<and> t < n}"
    unfolding qubit_pairs_def Let_def set_py_sort set_enum_pairs by simp
  show "sorted (map (\<lambda>e. fst e + snd e) (qubit_pairs n step))"
    using \<open>step \<noteq> 1\<close> unfolding qubit_pairs_def Let_def by (simp add: sorted_py_sort)
qed

lemma qubit_pairs_3_fwd: "qubit_pairs 3 1 = [(1, 2), (0, 2), (0, 1)]"
  by code_simp

lemma qubit_pairs_4_rev: "qubit_pairs 4 (- 1) = [(1, 2), (1, 3), (2, 3)]"
  by code_simp


theorem c1c2_pair_order_witness:
  "map op_pair (c1c2 xgate 4 [] True 1) = [(2, 3), (1, 3), (1, 2), (0, 3), (0, 2), (0, 1)] \<and>
   map op_pair (c1c2 xgate 4 [] True (- 1)) = [(1, 2), (1, 3), (2, 3)] \<and>
   set (qubit_pairs 4 1) = {(c, t). c < t \<and> t < 4} \<and>
   set (qubit_pairs 4 (- 1)) = {(c, t). 1 \<le> c \<and> c < t \<and> t < 4} \<and>
   sorted (rev (map (\<lambda>e. fst e + snd e) (qubit_pairs 4 1))) \<and>
   sorted (map (\<lambda>e. fst e + snd e) (qubit_pairs 4 (- 1)))"
proof -
  have f: "qubit_pairs 4 1 = [(2, 3), (1, 3), (1, 2), (0, 3), (0, 2), (0, 1)]"
    by code_simp
  have r: "qubit_pairs 4 (- 1) = [(1, 2), (1, 3), (2, 3)]"
    by code_simp
  show ?thesis
    using c1c2_pair_order[of xgate 4 True 1] c1c2_pair_order[of xgate 4 True "- 1"]
    unfolding f r by simp
qed

text \<open>
  The forward pass on three qubits emits the sums 3, 2, 1, which is not ascending; the
  reverse pass on four qubits emits the sums 3, 4, 5, which is not descending, and it
  leaves out the pair \<open>(0, 1)\<close>.
\<close>

theorem c1c2_pair_order_counterexample:
  "map op_pair (c1c2 xgate 3 [] True 1) = [(1, 2), (0, 2), (0, 1)] \<and>
   \<not> sorted (map (\<lambda>e. fst e + snd e) [(1, 2), (0, 2), (0, 1 :: nat)]) \<and>
   map op_pair (c1c2 xgate 4 [] True (- 1)) = [(1, 2), (1, 3), (2, 3)] \<and>
   \<not> sorted (rev (map (\<lambda>e. fst e + snd e) [(1, 2), (1, 3), (2, 3 :: nat)])) \<and>
   (0, 1) \<notin> set [(1, 2), (1, 3), (2, 3 :: nat)]"
  by (simp add: c1c2_def op_pair_c1c2_op comp_def qubit_pairs_3_fwd qubit_pairs_4_rev)


section \<open>Properties of oracle_multiples\<close>

lemma emit_simps [simp]:
  "raised (emit ops st) = raised st" "calls (emit ops st) = calls st"
  "circuits_sums (emit ops st) = circuits_sums st"
  "raised st = None \<Longrightarrow> circuit (emit ops st) = circuit st @ ops"
  "raised st \<noteq> None \<Longrightarrow> emit ops st = st"
  by (simp_all add: emit_def)

lemma raise_simps [simp]:
  "raised (raise e st) \<noteq> None" "calls (raise e st) = calls st"
  "circuits_sums (raise e st) = circuits_sums st"
  "raised st \<noteq> None \<Longrightarrow> raise e st = st"
  by (simp_all add: raise_def)

lemma append_sum_raised: "raised st \<noteq> None \<Longrightarrow> append_sum k ap inp rem rr anc i v st = st"
  by (simp add: append_sum_def)

lemma fold_in_raised: "raised st \<noteq> None \<Longrightarrow> fold_in k ap inp rem rr anc ks st = st"
  by (induction ks arbitrary: st) (auto simp: append_sum_raised)

lemma fold_out_eq_fold_in:
  "fold_out k ap inp rem rr anc ks st = fold_in k ap inp rem rr anc (map (\<lambda>(i, r). (i, k - r)) ks) st"
  by (induction ks arbitrary: st) (auto simp: Let_def)

lemma append_sum_hit:
  assumes "raised st = None" "circuits_sums st v = Some a" "i < length inp"
  shows "append_sum k ap inp rem rr [anc] i v st =
           st\<lparr>circuit := circuit st @ [Append_adder a ([inp ! i] @ rem @ [anc])]\<rparr>"
  using assms by (simp add: append_sum_def register_index_def emit_def domIff)

lemma append_sum_miss:
  assumes "raised st = None" "circuits_sums st v = None" "i < length inp"
    and "c_phase_add_mod_K rr 0 (length rr + 1) v k ap False = Inr c"
  shows "append_sum k ap inp rem rr [anc] i v st =
           st\<lparr>circuits_sums := (circuits_sums st)(v \<mapsto> \<lparr>built_by = length (calls st), gates = c\<rparr>),
              calls := calls st @ [v],
              circuit := circuit st @
                [Append_adder \<lparr>built_by = length (calls st), gates = c\<rparr> ([inp ! i] @ rem @ [anc])]\<rparr>"
  using assms by (simp add: append_sum_def register_index_def emit_def domIff Let_def)

lemma cache_inv_emit:
  assumes "cache_inv st" "\<forall>a qs. Append_adder a qs \<notin> set ops"
  shows "cache_inv (emit ops st)"
  using assms by (auto simp: cache_inv_def emit_def)

lemma cache_inv_raise: "cache_inv st \<Longrightarrow> cache_inv (raise e st)"
  by (auto simp: cache_inv_def raise_def)

lemma cache_inv_emit_cached:
  assumes "cache_inv st" "circuits_sums st v = Some a"
  shows "cache_inv (emit [Append_adder a qs] st)"
  using assms by (auto simp: cache_inv_def emit_def)

lemma cache_inv_fail:
  assumes "cache_inv st" "raised st = None" "v \<notin> dom (circuits_sums st)"
  shows "cache_inv (st\<lparr>calls := calls st @ [v], raised := Some e\<rparr>)"
proof -
  have nv: "v \<notin> set (calls st)" using assms by (auto simp: cache_inv_def)
  show ?thesis
    using assms nv by (auto simp: cache_inv_def nth_append intro: less_SucI)
qed

lemma cache_inv_build:
  assumes "cache_inv st" "raised st = None" "v \<notin> dom (circuits_sums st)"
  shows "cache_inv (st\<lparr>circuits_sums := (circuits_sums st)(v \<mapsto> \<lparr>built_by = length (calls st), gates = c\<rparr>),
                       calls := calls st @ [v]\<rparr>)"
proof -
  have nv: "v \<notin> set (calls st)" using assms by (auto simp: cache_inv_def)
  have old: "\<And>u a. circuits_sums st u = Some a \<Longrightarrow> built_by a < length (calls st) \<and> calls st ! built_by a = u \<and> u \<noteq> v"
    using assms by (auto simp: cache_inv_def)
  have ops: "\<And>a qs. Append_adder a qs \<in> set (circuit st) \<Longrightarrow>
        built_by a < length (calls st) \<and> circuits_sums st (calls st ! built_by a) = Some a"
    using assms by (auto simp: cache_inv_def)
  show ?thesis
    unfolding cache_inv_def
  proof (intro conjI allI impI)
    show "distinct (calls (st\<lparr>circuits_sums := (circuits_sums st)(v \<mapsto> \<lparr>built_by = length (calls st), gates = c\<rparr>), calls := calls st @ [v]\<rparr>))"
      using assms nv by (simp add: cache_inv_def)
  qed (use assms nv old ops in \<open>auto simp: cache_inv_def nth_append intro: less_SucI split: if_splits\<close>)
qed


lemma cache_inv_append_sum:
  assumes "cache_inv st"
  shows "cache_inv (append_sum k ap inp rem rr anc i v st)"
proof (cases "raised st = None")
  case False
  then show ?thesis using assms by (simp add: append_sum_raised)
next
  case nr: True
  define st1 where "st1 =
     (if v \<notin> dom (circuits_sums st) then
        (case c_phase_add_mod_K rr 0 (length rr + 1) v k ap False of
           Inl e \<Rightarrow> st\<lparr>calls := calls st @ [v], raised := Some e\<rparr>
         | Inr c \<Rightarrow> st\<lparr>circuits_sums := (circuits_sums st)
                         (v \<mapsto> \<lparr>built_by = length (calls st), gates = c\<rparr>),
                     calls := calls st @ [v]\<rparr>)
      else st)"
  have inv1: "cache_inv st1"
    unfolding st1_def using assms nr
    by (auto split: sum.splits intro!: cache_inv_fail cache_inv_build)
  have eq: "append_sum k ap inp rem rr anc i v st =
     (if raised st1 \<noteq> None then st1
      else (case circuits_sums st1 v of
              None \<Rightarrow> raise KeyError st1
            | Some a \<Rightarrow>
                (case register_index inp i of
                   Inl e \<Rightarrow> raise e st1
                 | Inr q \<Rightarrow>
                     (case register_index anc 0 of
                        Inl e \<Rightarrow> raise e st1
                      | Inr anc \<Rightarrow> emit [Append_adder a ([q] @ rem @ [anc])] st1))))"
    unfolding append_sum_def st1_def Let_def by (simp only: nr simp_thms if_False)
  show ?thesis
    unfolding eq using inv1
    by (auto split: option.splits sum.splits intro!: cache_inv_raise cache_inv_emit_cached)
qed

lemma cache_inv_fold_in:
  "cache_inv st \<Longrightarrow> cache_inv (fold_in k ap inp rem rr anc ks st)"
proof (induction ks arbitrary: st)
  case Nil
  then show ?case by simp
next
  case (Cons x ks)
  obtain i v where x: "x = (i, v)" by (cases x)
  show ?case unfolding x fold_in.simps
    by (rule Cons.IH) (rule cache_inv_append_sum[OF Cons.prems])
qed



lemma cache_inv_mark_multiples_root:
  "cache_inv st \<Longrightarrow> cache_inv (mark_multiples_root oracle qo inp rem st)"
  unfolding mark_multiples_root_def Let_def
  by (auto intro!: cache_inv_emit)





lemma record_calls_prefix: "\<exists>ys. record_calls cs xs = cs @ ys"
  by (induction xs arbitrary: cs) (auto, metis append.assoc)

lemma set_record_calls: "set (record_calls cs xs) = set cs \<union> set xs"
  by (induction xs arbitrary: cs) auto

lemma distinct_record_calls: "distinct cs \<Longrightarrow> distinct (record_calls cs xs)"
  by (induction xs arbitrary: cs) auto

lemma record_calls_append: "record_calls cs (xs @ ys) = record_calls (record_calls cs xs) ys"
  by (induction xs arbitrary: cs) auto

lemma ceil_log2_bound: "n \<le> 2 ^ ceil_log2 n"
proof (induction n rule: ceil_log2.induct)
  case (1 n)
  show ?case
  proof (cases "n \<le> 1")
    case True
    then show ?thesis by (subst ceil_log2.simps) simp
  next
    case False
    from "1.IH"[OF False] have "(n + 1) div 2 \<le> 2 ^ ceil_log2 ((n + 1) div 2)" .
    then have "n \<le> 2 * 2 ^ ceil_log2 ((n + 1) div 2)" by linarith
    then show ?thesis using False by (subst ceil_log2.simps) simp
  qed
qed

lemma adder_builds:
  assumes "2 \<le> k" "0 \<le> v" "v \<le> k"
  shows "\<exists>c. c_phase_add_mod_K [1 ..< ceil_log2 (nat k) + 1 + 1] 0 (length [1 ..< ceil_log2 (nat k) + 1 + 1] + 1)
               v k ap False = Inr c"
proof -
  define w where "w = ceil_log2 (nat k) + 1"
  have len: "length [1 ..< w + 1] = w" by simp
  have "nat k \<le> 2 ^ ceil_log2 (nat k)" by (rule ceil_log2_bound)
  then have "k \<le> 2 ^ ceil_log2 (nat k)" using assms(1)
    by (metis nat_le_iff of_nat_numeral of_nat_power)
  moreover have "(0::int) < 2 ^ ceil_log2 (nat k)" by simp
  ultimately have "k < 2 * 2 ^ ceil_log2 (nat k)" by linarith
  then have kw: "k < 2 ^ w" unfolding w_def by simp
  have a: "get_angles_phase_addition v (length [1 ..< w + 1]) =
           Inr (map (\<lambda>i. real (nat v mod 2 ^ Suc i) / 2 ^ i * pi) [0..<w])"
    unfolding len using assms kw by (intro get_angles_mod) simp_all
  have b: "get_angles_phase_addition k (length [1 ..< w + 1]) =
           Inr (map (\<lambda>i. real (nat k mod 2 ^ Suc i) / 2 ^ i * pi) [0..<w])"
    unfolding len using assms kw by (intro get_angles_mod) simp_all
  have ne: "[1 ..< w + 1] \<noteq> []" by (simp add: w_def)
  show ?thesis
    unfolding w_def[symmetric] c_phase_add_mod_K_ops[OF a b ne] by blast
qed

lemma tiling_long_enough:
  assumes "0 \<le> pw" "0 < L"
  shows "nat (pw + 1) \<le> nat (pw div int L + 1) * L"
proof -
  have "int (nat pw div L) = int (nat pw) div int L" by (rule zdiv_int)
  then have "pw div int L = int (nat pw div L)" using assms(1) by simp
  then have reps: "nat (pw div int L + 1) = nat pw div L + 1" by simp
  have "nat pw < (nat pw div L + 1) * L"
    using dividend_less_div_times[of L "nat pw"] assms(2) by simp
  then show ?thesis unfolding reps using assms(1) by (simp add: nat_add_distrib)
qed

lemma remainders_loop_range:
  "2 \<le> K \<Longrightarrow> 2 \<le> p \<Longrightarrow> p \<le> pw + 1 \<Longrightarrow> length rs = nat p \<Longrightarrow>
   \<forall>x \<in> set rs. 0 \<le> x \<and> x \<le> K \<Longrightarrow>
   length (remainders_loop K pw p rs) = nat (pw + 1) \<and>
   (\<forall>x \<in> set (remainders_loop K pw p rs). 0 \<le> x \<and> x \<le> K)"
proof (induction K pw p rs rule: remainders_loop.induct)
  case (1 K pw p rs)
  show ?case
  proof (cases "p < pw + 1")
    case False
    then have "p = pw + 1" using "1.prems" by simp
    then show ?thesis using "1.prems" by (subst remainders_loop.simps, subst remainders_loop.simps) simp
  next
    case True
    have ne: "rs \<noteq> []" using "1.prems" by auto
    then have lst: "0 \<le> last rs" "last rs \<le> K" using "1.prems"(5) last_in_set by blast+
    define c where "c = (if K \<le> last rs * 2 then last rs * 2 - K else last rs * 2)"
    have cr: "0 \<le> c" "c \<le> K" using lst by (auto simp: c_def)
    show ?thesis
    proof (cases "c = 1")
      case False
      have len: "length (rs @ [c]) = nat (p + 1)" using "1.prems" by (simp add: nat_add_distrib)
      have rng: "\<forall>x \<in> set (rs @ [c]). 0 \<le> x \<and> x \<le> K" using "1.prems"(5) cr by auto
      have "length (remainders_loop K pw (p + 1) (rs @ [c])) = nat (pw + 1) \<and>
            (\<forall>x \<in> set (remainders_loop K pw (p + 1) (rs @ [c])). 0 \<le> x \<and> x \<le> K)"
        using "1.IH"[OF True refl c_def False "1.prems"(1) _ _ len rng] True "1.prems" by simp
      moreover have "remainders_loop K pw p rs = remainders_loop K pw (p + 1) (rs @ [c])"
        using True False by (subst remainders_loop.simps) (simp add: c_def Let_def)
      ultimately show ?thesis by simp
    next
      case c1: True
      have res: "remainders_loop K pw p rs =
                 take (nat (pw + 1)) (concat (replicate (nat (pw div int (length rs) + 1)) rs))"
        using True c1 by (subst remainders_loop.simps) (simp add: c_def Let_def list_times_def)
      have pw0: "0 \<le> pw" using True "1.prems" by simp
      have "nat (pw + 1) \<le> nat (pw div int (length rs) + 1) * length rs"
        using tiling_long_enough[OF pw0, of "length rs"] ne by simp
      then have "length (remainders_loop K pw p rs) = nat (pw + 1)"
        unfolding res by (simp add: length_concat_replicate)
      moreover have "set (remainders_loop K pw p rs) \<subseteq> set rs"
        unfolding res by (rule subset_trans[OF set_take_subset]) auto
      ultimately show ?thesis using "1.prems"(5) by blast
    qed
  qed
qed

lemma get_remainders_power_2_range:
  assumes "2 \<le> K" "1 \<le> p"
  shows "length (get_remainders_power_2 K p) = nat (p + 1)"
    and "\<forall>x \<in> set (get_remainders_power_2 K p). 0 \<le> x \<and> x \<le> K"
  using remainders_loop_range[of K 2 p "[1, 2]"] assms
  by (simp_all add: get_remainders_power_2_def)

lemma append_sum_classical:
  "classical (append_sum k ap inp rem rr anc i v st) = classical st"
  by (auto simp: append_sum_def Let_def emit_def raise_def split: sum.splits option.splits)

lemma fold_in_ok:
  assumes "raised st = None" "cache_inv st"
    and "\<forall>(i, v) \<in> set ks. i < length inp \<and>
           (\<exists>c. c_phase_add_mod_K rr 0 (length rr + 1) v k ap False = Inr c)"
  shows "raised (fold_in k ap inp rem rr [anc] ks st) = None \<and>
         calls (fold_in k ap inp rem rr [anc] ks st) = record_calls (calls st) (map snd ks) \<and>
         circuits_sums st \<subseteq>\<^sub>m circuits_sums (fold_in k ap inp rem rr [anc] ks st) \<and>
         circuit (fold_in k ap inp rem rr [anc] ks st) =
           circuit st @
           map (\<lambda>(i, v). Append_adder (the (circuits_sums (fold_in k ap inp rem rr [anc] ks st) v))
                            ([inp ! i] @ rem @ [anc])) ks"
  using assms
proof (induction ks arbitrary: st)
  case Nil
  then show ?case by simp
next
  case (Cons x ks)
  obtain i v where x: "x = (i, v)" by (cases x)
  from Cons.prems(3) x obtain c where
    i: "i < length inp" and c: "c_phase_add_mod_K rr 0 (length rr + 1) v k ap False = Inr c"
    by auto
  define st1 where "st1 = append_sum k ap inp rem rr [anc] i v st"
  define a where "a = (case circuits_sums st v of Some a \<Rightarrow> a
                       | None \<Rightarrow> \<lparr>built_by = length (calls st), gates = c\<rparr>)"
  have dom: "dom (circuits_sums st) = set (calls st)"
    using Cons.prems(1,2) by (auto simp: cache_inv_def)
  have st1: "raised st1 = None \<and>
             calls st1 = (if v \<in> set (calls st) then calls st else calls st @ [v]) \<and>
             circuits_sums st \<subseteq>\<^sub>m circuits_sums st1 \<and> circuits_sums st1 v = Some a \<and>
             circuit st1 = circuit st @ [Append_adder a ([inp ! i] @ rem @ [anc])]"
  proof (cases "circuits_sums st v")
    case None
    then have "v \<notin> set (calls st)" using dom by (auto simp: domIff)
    then show ?thesis
      unfolding st1_def append_sum_miss[OF Cons.prems(1) None i c] a_def
      using Cons.prems(1) None by (auto simp: map_le_def)
  next
    case (Some b)
    then have "v \<in> set (calls st)" using dom by (auto simp: domIff)
    then show ?thesis
      unfolding st1_def append_sum_hit[OF Cons.prems(1) Some i] a_def
      using Cons.prems(1) Some by (simp add: map_le_def)
  qed
  have inv1: "cache_inv st1" unfolding st1_def by (rule cache_inv_append_sum[OF Cons.prems(2)])
  have rest: "\<forall>(i, v) \<in> set ks. i < length inp \<and>
           (\<exists>c. c_phase_add_mod_K rr 0 (length rr + 1) v k ap False = Inr c)"
    using Cons.prems(3) by simp
  note IH = Cons.IH[OF _ inv1 rest, unfolded st1_def[symmetric]]
  have f: "fold_in k ap inp rem rr [anc] (x # ks) st = fold_in k ap inp rem rr [anc] ks st1"
    by (simp add: x st1_def)
  from IH st1 have le: "circuits_sums st1 \<subseteq>\<^sub>m circuits_sums (fold_in k ap inp rem rr [anc] ks st1)"
    by simp
  then have av: "circuits_sums (fold_in k ap inp rem rr [anc] ks st1) v = Some a"
    using st1 by (metis domI map_le_def)
  show ?case
    unfolding f using IH st1 av
    by (auto simp: x intro: map_le_trans)
qed

lemma adders_append: "adders (xs @ ys) = adders xs @ adders ys"
  by (induction xs rule: adders.induct) auto

lemma adders_Gates: "adders (map (\<lambda>q. Gate (f q)) qs) = []"
  by (induction qs) auto

lemma adders_Append_adders:
  "adders (map (\<lambda>(i, v). Append_adder (f i v) (g i v)) ks) = map (\<lambda>(i, v). (f i v, g i v)) ks"
  by (induction ks) auto

lemma adders_empty: "adders ops = [] \<Longrightarrow> Append_adder a qs \<notin> set ops"
  by (induction ops rule: adders.induct) auto

lemma adders_mark_default: "adders (mark_default rem) = []"
  by (simp add: mark_default_def adders_append adders_Gates)

lemma mark_multiples_emits:
  assumes "raised (mark_multiples oracle qo qc sc inp rem st) = None"
  shows "\<exists>ops. adders ops = [] \<and> mark_multiples oracle qo qc sc inp rem st = emit ops st"
proof -
  have g: "adders (map (\<lambda>q. Gate (X q)) qs @ [Append_oracle c m qs'] @ map (\<lambda>q. Gate (X q)) qs) = []"
    for qs c m qs'
    by (simp add: adders_append adders_Gates)
  show ?thesis
    using assms unfolding mark_multiples_def Let_def
    by (auto split: if_splits intro: g adders_mark_default)
qed

lemma mark_multiples_root_emits:
  "\<exists>ops. adders ops = [] \<and> mark_multiples_root oracle qo inp rem st = emit ops st"
proof -
  have e: "emit a (emit b (emit c st)) = emit (c @ b @ a) st" for a b c
    by (simp add: emit_def)
  have g: "adders (map (\<lambda>q. Gate (X q)) qs @ [op] @ map (\<lambda>q. Gate (X q)) qs) = []"
    if "adders [op] = []" for qs op
    using that adders_append[of "[op]" "map (\<lambda>q. Gate (X q)) qs"]
    by (simp add: adders_append adders_Gates)
  show ?thesis
  proof (cases "oracle_given oracle")
    case True
    have "mark_multiples_root oracle qo inp rem st =
            emit (map (\<lambda>q. Gate (X q)) (butlast rem) @
                  [Append_oracle (the oracle) 0 (if \<not> list_given qo then inp else the qo)] @
                  map (\<lambda>q. Gate (X q)) (butlast rem)) st"
      using True by (simp add: mark_multiples_root_def Let_def e)
    moreover have "adders (map (\<lambda>q. Gate (X q)) (butlast rem) @
                  [Append_oracle (the oracle) 0 (if \<not> list_given qo then inp else the qo)] @
                  map (\<lambda>q. Gate (X q)) (butlast rem)) = []"
      by (rule g) simp
    ultimately show ?thesis by blast
  next
    case False
    have "mark_multiples_root oracle qo inp rem st =
            emit (map (\<lambda>q. Gate (X q)) (butlast rem) @
                  [Append_mcz (multi_control_z (length rem - 1)) (butlast rem)] @
                  map (\<lambda>q. Gate (X q)) (butlast rem)) st"
      using False by (simp add: mark_multiples_root_def Let_def e)
    moreover have "adders (map (\<lambda>q. Gate (X q)) (butlast rem) @
                  [Append_mcz (multi_control_z (length rem - 1)) (butlast rem)] @
                  map (\<lambda>q. Gate (X q)) (butlast rem)) = []"
      by (rule g) simp
    ultimately show ?thesis by blast
  qed
qed

lemma fold_out_raised: "raised st \<noteq> None \<Longrightarrow> fold_out k ap inp rem rr anc ks st = st"
  by (simp add: fold_out_eq_fold_in fold_in_raised)

lemma length_enumerate0: "length (List.enumerate 0 xs) = length xs"
  by simp

lemma in_set_enumerate0: "(i, v) \<in> set (List.enumerate 0 xs) \<Longrightarrow> i < length xs \<and> v = xs ! i"
  by (auto simp: in_set_enumerate_eq)

text \<open>The run of \<open>build_oracle\<close>, for a marking step that emits operations or raises.\<close>

lemma build_oracle_run:
  fixes k :: int and n ap :: nat
  defines "rs \<equiv> get_remainders_power_2 k (int n - 1)"
    and "inp \<equiv> map Input [0 ..< n]"
    and "rem \<equiv> map Remainders [0 ..< ceil_log2 (nat k) + 1]"
  assumes k2: "2 \<le> k" and n2: "2 \<le> n"
    and init: "raised st = None" "calls st = []" "circuit st = []"
    and mark: "\<And>s. raised s = None \<Longrightarrow> raised (mark inp rem s) = None \<Longrightarrow>
                 \<exists>ops. adders ops = [] \<and> mark inp rem s = emit ops s"
    and fin: "raised (build_oracle k n ap init_H mark st) = None \<or>
              (\<forall>s. raised s = None \<longrightarrow> raised (mark inp rem s) = None)"
  shows "raised (build_oracle k n ap init_H mark st) = None \<and>
         cache_inv (build_oracle k n ap init_H mark st) \<and>
         calls (build_oracle k n ap init_H mark st) = record_calls [] (rs @ map (\<lambda>r. k - r) rs) \<and>
         adders (circuit (build_oracle k n ap init_H mark st)) =
           map (\<lambda>(i, r). (the (circuits_sums (build_oracle k n ap init_H mark st) r),
                           [Input i] @ rem @ [Ancilla 0])) (List.enumerate 0 rs) @
           map (\<lambda>(i, r). (the (circuits_sums (build_oracle k n ap init_H mark st) (k - r)),
                           [Input i] @ rem @ [Ancilla 0])) (List.enumerate 0 rs)"
proof -
  define rr where "rr = [1 ..< length rem + 1]"
  define ks where "ks = List.enumerate 0 rs"
  define ks' where "ks' = map (\<lambda>(i, r). (i, k - r)) ks"
  define s0 where "s0 = (emit (map (\<lambda>q. Gate (H q)) rem)
     (if init_H then emit (map (\<lambda>q. Gate (H q)) inp) st else st))\<lparr>circuits_sums := Map.empty\<rparr>"
  define s1 where "s1 = fold_in k ap inp rem rr [Ancilla 0] ks s0"
  define s2 where "s2 = emit [Gate (QFT (length rem) ap True rem)] s1"
  define s3 where "s3 = mark inp rem s2"
  define s4 where "s4 = emit [Gate (QFT (length rem) ap False rem)] s3"
  define s5 where "s5 = fold_in k ap inp rem rr [Ancilla 0] ks' s4"
  define fin where "fin = emit [Gate (QFT (length rem) ap True rem)] s5"
  have run: "build_oracle k n ap init_H mark st = fin"
    unfolding build_oracle_def Let_def fin_def s5_def s4_def s3_def s2_def s1_def s0_def
      ks'_def ks_def rr_def rs_def inp_def rem_def fold_out_eq_fold_in ..
  \<comment> \<open>the remainders\<close>
  have len_rs: "length rs = n"
    unfolding rs_def using get_remainders_power_2_range(1)[OF k2, of "int n - 1"] n2 by simp
  have rng_rs: "\<forall>x \<in> set rs. 0 \<le> x \<and> x \<le> k"
    unfolding rs_def using get_remainders_power_2_range(2)[OF k2, of "int n - 1"] n2 by simp
  have rr: "rr = [1 ..< ceil_log2 (nat k) + 1 + 1]" by (simp add: rr_def rem_def)
  have builds: "\<exists>c. c_phase_add_mod_K rr 0 (length rr + 1) v k ap False = Inr c"
    if "0 \<le> v" "v \<le> k" for v
    unfolding rr by (rule adder_builds[OF k2 that])
  have ks_ok: "\<forall>(i, v) \<in> set ks. i < length inp \<and>
           (\<exists>c. c_phase_add_mod_K rr 0 (length rr + 1) v k ap False = Inr c)"
  proof (clarify, intro conjI)
    fix i v assume iv: "(i, v) \<in> set ks"
    then have "i < length rs" "v = rs ! i" unfolding ks_def by (auto dest: in_set_enumerate0)
    then show "i < length inp" using len_rs by (simp add: inp_def)
    have "v \<in> set rs" using \<open>i < length rs\<close> \<open>v = rs ! i\<close> by simp
    then show "\<exists>c. c_phase_add_mod_K rr 0 (length rr + 1) v k ap False = Inr c"
      using rng_rs by (intro builds) auto
  qed
  have ks'_ok: "\<forall>(i, v) \<in> set ks'. i < length inp \<and>
           (\<exists>c. c_phase_add_mod_K rr 0 (length rr + 1) v k ap False = Inr c)"
  proof (clarify, intro conjI)
    fix i v assume "(i, v) \<in> set ks'"
    then obtain r where iv: "(i, r) \<in> set ks" "v = k - r" unfolding ks'_def by auto
    then have "i < length rs" "r = rs ! i" unfolding ks_def by (auto dest: in_set_enumerate0)
    then show "i < length inp" using len_rs by (simp add: inp_def)
    have "r \<in> set rs" using \<open>i < length rs\<close> \<open>r = rs ! i\<close> by simp
    then show "\<exists>c. c_phase_add_mod_K rr 0 (length rr + 1) v k ap False = Inr c"
      using rng_rs iv(2) by (intro builds) auto
  qed
  have snd_ks: "map snd ks = rs" unfolding ks_def by (rule map_snd_enumerate)
  have "map snd ks' = map (\<lambda>r. k - r) (map snd ks)"
    by (simp add: ks'_def case_prod_beta comp_def)
  then have snd_ks': "map snd ks' = map (\<lambda>r. k - r) rs"
    unfolding snd_ks .
  \<comment> \<open>the states\<close>
  have s0: "raised s0 = None" "calls s0 = []" "circuits_sums s0 = Map.empty" "adders (circuit s0) = []"
    using init by (auto simp: s0_def emit_def adders_append adders_Gates)
  have inv0: "cache_inv s0"
    using s0 by (auto simp: cache_inv_def dest: adders_empty)
  note f1 = fold_in_ok[OF s0(1) inv0 ks_ok, of rem "Ancilla 0", folded s1_def]
  have inv1: "cache_inv s1" unfolding s1_def by (rule cache_inv_fold_in[OF inv0])
  have s2: "raised s2 = None" "calls s2 = calls s1" "circuits_sums s2 = circuits_sums s1"
    "circuit s2 = circuit s1 @ [Gate (QFT (length rem) ap True rem)]"
    using f1 by (simp_all add: s2_def)
  have r3: "raised s3 = None"
  proof (rule ccontr)
    assume a: "raised s3 \<noteq> None"
    then have "fin = s3"
      unfolding fin_def s5_def s4_def by (simp add: fold_in_raised)
    with a run fin s2(1) show False by (auto simp: s3_def)
  qed
  from mark[OF s2(1) r3[unfolded s3_def]] obtain ops where
    ops: "adders ops = []" "s3 = emit ops s2" unfolding s3_def by blast
  have s4: "raised s4 = None" "calls s4 = calls s1" "circuits_sums s4 = circuits_sums s1"
    "circuit s4 = circuit s1 @ [Gate (QFT (length rem) ap True rem)] @ ops @
                  [Gate (QFT (length rem) ap False rem)]"
    using s2 ops(2) by (simp_all add: s4_def)
  have inv4: "cache_inv s4"
    unfolding s4_def ops(2) s2_def
    by (intro cache_inv_emit inv1) (use ops(1) in \<open>auto dest: adders_empty\<close>)
  note f5 = fold_in_ok[OF s4(1) inv4 ks'_ok, of rem "Ancilla 0", folded s5_def]
  have inv5: "cache_inv s5" unfolding s5_def by (rule cache_inv_fold_in[OF inv4])
  have fin_eq: "raised fin = None" "calls fin = calls s5" "circuits_sums fin = circuits_sums s5"
    "circuit fin = circuit s5 @ [Gate (QFT (length rem) ap True rem)]"
    using f5 by (simp_all add: fin_def)
  have inv_fin: "cache_inv fin"
    unfolding fin_def by (intro cache_inv_emit inv5) simp
  \<comment> \<open>the calls\<close>
  have calls: "calls fin = record_calls [] (rs @ map (\<lambda>r. k - r) rs)"
    using f1 f5 s0(2) s4(2) fin_eq(2) by (simp add: record_calls_append snd_ks snd_ks')
  \<comment> \<open>the adders appended\<close>
  have le: "circuits_sums s1 \<subseteq>\<^sub>m circuits_sums fin"
    using f5 s4(3) fin_eq(3) by simp
  have dom1: "dom (circuits_sums s1) = set rs"
    using inv1 f1 s0(2) by (auto simp: cache_inv_def set_record_calls snd_ks)
  have same: "the (circuits_sums s1 v) = the (circuits_sums fin v)" if "(i, v) \<in> set ks" for i v
  proof -
    have "v \<in> set rs" using that unfolding ks_def by (auto dest: in_set_enumerate0)
    then have "v \<in> dom (circuits_sums s1)" using dom1 by simp
    then show ?thesis using le by (metis map_le_def)
  qed
  have inpi: "inp ! i = Input i" if "(i, v) \<in> set ks" for i v
  proof -
    have "i < n" using that ks_ok by (auto simp: inp_def)
    then show ?thesis by (simp add: inp_def)
  qed
  have in1: "map (\<lambda>(i, v). Append_adder (the (circuits_sums s1 v)) ([inp ! i] @ rem @ [Ancilla 0])) ks
           = map (\<lambda>(i, v). Append_adder (the (circuits_sums fin v)) ([Input i] @ rem @ [Ancilla 0])) ks"
    by (rule map_cong[OF refl]) (use same inpi in auto)
  have in5: "map (\<lambda>(i, v). Append_adder (the (circuits_sums s5 v)) ([inp ! i] @ rem @ [Ancilla 0])) ks'
           = map (\<lambda>(i, r). Append_adder (the (circuits_sums fin (k - r))) ([Input i] @ rem @ [Ancilla 0])) ks"
    unfolding ks'_def map_map
    by (rule map_cong[OF refl]) (use fin_eq(3) inpi in auto)
  have circ: "circuit fin = circuit s0 @
      map (\<lambda>(i, v). Append_adder (the (circuits_sums fin v)) ([Input i] @ rem @ [Ancilla 0])) ks @
      [Gate (QFT (length rem) ap True rem)] @ ops @ [Gate (QFT (length rem) ap False rem)] @
      map (\<lambda>(i, r). Append_adder (the (circuits_sums fin (k - r))) ([Input i] @ rem @ [Ancilla 0])) ks @
      [Gate (QFT (length rem) ap True rem)]"
    using f1 f5 s4(4) fin_eq(4) in1 in5 by simp
  have "adders (circuit fin) =
      map (\<lambda>(i, v). (the (circuits_sums fin v), [Input i] @ rem @ [Ancilla 0])) ks @
      map (\<lambda>(i, r). (the (circuits_sums fin (k - r)), [Input i] @ rem @ [Ancilla 0])) ks"
    unfolding circ adders_append adders_Append_adders using s0(4) ops(1) by simp
  then show ?thesis
    unfolding run using fin_eq(1) inv_fin calls by (simp add: ks_def)
qed


lemma new_circuit_simps [simp]:
  "raised (new_circuit c) = None" "calls (new_circuit c) = []" "circuit (new_circuit c) = []"
  by (simp_all add: new_circuit_def)

lemma oracle_multiples_state_run:
  fixes k :: int and n :: nat
  defines "rs \<equiv> get_remainders_power_2 k (int n - 1)"
    and "rem \<equiv> map Remainders [0 ..< ceil_log2 (nat k) + 1]"
  assumes "2 \<le> k" "2 \<le> n"
    and "raised (oracle_multiples_state k n ap orc qo qc sc init_H cr) = None \<or> \<not> oracle_given orc"
  shows "raised (oracle_multiples_state k n ap orc qo qc sc init_H cr) = None \<and>
         cache_inv (oracle_multiples_state k n ap orc qo qc sc init_H cr) \<and>
         calls (oracle_multiples_state k n ap orc qo qc sc init_H cr) =
           record_calls [] (rs @ map (\<lambda>r. k - r) rs) \<and>
         adders (circuit (oracle_multiples_state k n ap orc qo qc sc init_H cr)) =
           map (\<lambda>(i, r). (the (circuits_sums (oracle_multiples_state k n ap orc qo qc sc init_H cr) r),
                           [Input i] @ rem @ [Ancilla 0])) (List.enumerate 0 rs) @
           map (\<lambda>(i, r). (the (circuits_sums (oracle_multiples_state k n ap orc qo qc sc init_H cr) (k - r)),
                           [Input i] @ rem @ [Ancilla 0])) (List.enumerate 0 rs)"
proof -
  have nr: "\<not> oracle_given orc \<Longrightarrow> raised (mark_multiples orc qo qc sc inp rm s) = raised s"
    for inp rm s
    by (simp add: mark_multiples_def)
  show ?thesis
    unfolding oracle_multiples_state_def Let_def rs_def rem_def
    apply (rule build_oracle_run[OF assms(3,4)])
        apply simp
       apply simp
      apply simp
     apply (rule mark_multiples_emits, assumption)
    using assms(5) nr unfolding oracle_multiples_state_def Let_def
    apply auto
    done
qed

lemma reused_iff:
  assumes inv: "cache_inv st" and nr: "raised st = None"
    and calls: "calls st = record_calls (record_calls [] rs) xs"
    and v: "v \<in> set (calls st)"
  shows "built_by (the (circuits_sums st v)) < length (record_calls [] rs) \<longleftrightarrow> v \<in> set rs"
proof -
  obtain ys where ys: "calls st = record_calls [] rs @ ys"
    using record_calls_prefix[of "record_calls [] rs" xs] calls by auto
  from inv nr v obtain a where a: "circuits_sums st v = Some a"
    by (auto simp: cache_inv_def)
  with inv have b: "built_by a < length (calls st)" "calls st ! built_by a = v"
    by (auto simp: cache_inv_def)
  have d: "distinct (calls st)" using inv by (simp add: cache_inv_def)
  have s1: "set (record_calls [] rs) = set rs" by (simp add: set_record_calls)
  show ?thesis
  proof
    assume "built_by (the (circuits_sums st v)) < length (record_calls [] rs)"
    then have lt: "built_by a < length (record_calls [] rs)" using a by simp
    then have "calls st ! built_by a = record_calls [] rs ! built_by a"
      unfolding ys by (simp add: nth_append)
    then have "v \<in> set (record_calls [] rs)" using b(2) lt nth_mem by metis
    then show "v \<in> set rs" using s1 by simp
  next
    assume "v \<in> set rs"
    then have "v \<in> set (record_calls [] rs)" using s1 by simp
    then obtain j where j: "j < length (record_calls [] rs)" "record_calls [] rs ! j = v"
      by (auto simp: in_set_conv_nth)
    then have "calls st ! j = v" "j < length (calls st)" unfolding ys by (simp_all add: nth_append)
    then have "j = built_by a" using b d nth_eq_iff_index_eq[of "calls st" j "built_by a"] by simp
    then show "built_by (the (circuits_sums st v)) < length (record_calls [] rs)"
      using j(1) a by simp
  qed
qed

text \<open>
  C5 (amended).  In a build of \<open>oracle_multiples\<close> that returns, for \<open>k \<ge> 2\<close> on at least
  two input qubits: the calls of \<open>c_phase_add_mod_K\<close> are those of the fold-in loop
  followed by those the fold-out loop adds; the adders appended are, for each input
  wire \<open>i\<close>, the dictionary's adder for the remainder \<open>r\<^sub>i\<close> and then, for each input wire
  \<open>i\<close>, the dictionary's adder for the inverse \<open>k - r\<^sub>i\<close>; and the fold-out reference of
  wire \<open>i\<close> is an adder built during fold-in exactly when \<open>k - r\<^sub>i\<close> is one of the
  remainders of the fold-in loop, of any wire.
\<close>

theorem oracle_multiples_reuse:
  fixes k :: int and n :: nat
  defines "rs \<equiv> get_remainders_power_2 k (int n - 1)"
    and "rem \<equiv> map Remainders [0 ..< ceil_log2 (nat k) + 1]"
  assumes "2 \<le> k" "2 \<le> n"
    and "raised (oracle_multiples_state k n ap orc qo qc sc init_H cr) = None"
  shows "calls (oracle_multiples_state k n ap orc qo qc sc init_H cr) =
           record_calls (record_calls [] rs) (map (\<lambda>r. k - r) rs) \<and>
         adders (circuit (oracle_multiples_state k n ap orc qo qc sc init_H cr)) =
           map (\<lambda>(i, r). (the (circuits_sums (oracle_multiples_state k n ap orc qo qc sc init_H cr) r),
                           [Input i] @ rem @ [Ancilla 0])) (List.enumerate 0 rs) @
           map (\<lambda>(i, r). (the (circuits_sums (oracle_multiples_state k n ap orc qo qc sc init_H cr) (k - r)),
                           [Input i] @ rem @ [Ancilla 0])) (List.enumerate 0 rs) \<and>
         (\<forall>i < n.
            built_by (the (circuits_sums (oracle_multiples_state k n ap orc qo qc sc init_H cr)
                             (k - rs ! i)))
              < length (record_calls [] rs)
            \<longleftrightarrow> k - rs ! i \<in> set rs)"
proof -
  let ?st = "oracle_multiples_state k n ap orc qo qc sc init_H cr"
  from oracle_multiples_state_run[OF assms(3,4), of ap orc qo qc sc init_H cr] assms(5)
  have run: "cache_inv ?st"
    "calls ?st = record_calls [] (rs @ map (\<lambda>r. k - r) rs)"
    "adders (circuit ?st) =
       map (\<lambda>(i, r). (the (circuits_sums ?st r), [Input i] @ rem @ [Ancilla 0])) (List.enumerate 0 rs) @
       map (\<lambda>(i, r). (the (circuits_sums ?st (k - r)), [Input i] @ rem @ [Ancilla 0])) (List.enumerate 0 rs)"
    unfolding rs_def rem_def by simp_all
  have c: "calls ?st = record_calls (record_calls [] rs) (map (\<lambda>r. k - r) rs)"
    using run(2) by (simp add: record_calls_append)
  have len: "length rs = n"
    unfolding rs_def using get_remainders_power_2_range(1)[OF assms(3), of "int n - 1"] assms(4)
    by simp
  have "built_by (the (circuits_sums ?st (k - rs ! i))) < length (record_calls [] rs)
          \<longleftrightarrow> k - rs ! i \<in> set rs" if "i < n" for i
  proof (rule reused_iff[OF run(1) assms(5) c])
    have "k - rs ! i \<in> set (map (\<lambda>r. k - r) rs)" using that len by simp
    then show "k - rs ! i \<in> set (calls ?st)" unfolding c set_record_calls by blast
  qed
  with c run(3) show ?thesis by blast
qed

lemma ceil_log2_3: "ceil_log2 3 = 2" by code_simp
lemma ceil_log2_4: "ceil_log2 4 = 2" by code_simp
lemma remainders_3_1: "get_remainders_power_2 3 1 = [1, 2]" by code_simp
lemma remainders_4_2: "get_remainders_power_2 4 2 = [1, 2, 0]" by code_simp

lemma built_by_index:
  assumes "cache_inv st" "raised st = None" "j < length (calls st)"
  shows "built_by (the (circuits_sums st (calls st ! j))) = j"
proof -
  have "calls st ! j \<in> set (calls st)" using assms(3) by simp
  then have "calls st ! j \<in> dom (circuits_sums st)" using assms(1,2) by (auto simp: cache_inv_def)
  then obtain a where a: "circuits_sums st (calls st ! j) = Some a" by blast
  with assms(1) have "built_by a < length (calls st)" "calls st ! built_by a = calls st ! j"
    by (auto simp: cache_inv_def)
  moreover have "distinct (calls st)" using assms(1) by (simp add: cache_inv_def)
  ultimately have "built_by a = j"
    using assms(3) nth_eq_iff_index_eq[of "calls st" "built_by a" j] by simp
  then show ?thesis using a by simp
qed


text \<open>The build for \<open>k = 3\<close> on two input qubits, with the default marking.\<close>

lemma oracle_3_2:
  defines "st \<equiv> oracle_multiples_state 3 2 0 None None None None False None"
  shows "raised st = None" "cache_inv st" "calls st = [1, 2]"
    "adders (circuit st) =
       [(the (circuits_sums st 1), [Input 0, Remainders 0, Remainders 1, Remainders 2, Ancilla 0]),
        (the (circuits_sums st 2), [Input 1, Remainders 0, Remainders 1, Remainders 2, Ancilla 0]),
        (the (circuits_sums st 2), [Input 0, Remainders 0, Remainders 1, Remainders 2, Ancilla 0]),
        (the (circuits_sums st 1), [Input 1, Remainders 0, Remainders 1, Remainders 2, Ancilla 0])]"
    "built_by (the (circuits_sums st 1)) = 0" "built_by (the (circuits_sums st 2)) = 1"
proof -
  have r: "get_remainders_power_2 3 (int 2 - 1) = [1, 2]" using remainders_3_1 by simp
  have u: "[0 ..< 3] = [0, 1, 2]" by (simp add: upt_rec)
  note run = oracle_multiples_state_run[where k = 3 and n = 2 and ap = 0 and orc = None
      and qo = None and qc = None and sc = None and init_H = False and cr = None,
      unfolded r, folded st_def]
  show nr: "raised st = None" and inv: "cache_inv st" and c: "calls st = [1, 2]"
    using run by simp_all
  show "adders (circuit st) =
       [(the (circuits_sums st 1), [Input 0, Remainders 0, Remainders 1, Remainders 2, Ancilla 0]),
        (the (circuits_sums st 2), [Input 1, Remainders 0, Remainders 1, Remainders 2, Ancilla 0]),
        (the (circuits_sums st 2), [Input 0, Remainders 0, Remainders 1, Remainders 2, Ancilla 0]),
        (the (circuits_sums st 1), [Input 1, Remainders 0, Remainders 1, Remainders 2, Ancilla 0])]"
    using run by (simp add: ceil_log2_3 u enumerate_simps)
  show "built_by (the (circuits_sums st 1)) = 0"
    using built_by_index[OF inv nr, of 0] c by simp
  show "built_by (the (circuits_sums st 2)) = 1"
    using built_by_index[OF inv nr, of 1] c by simp
qed

theorem oracle_multiples_reuse_witness:
  "(2::int) \<le> 4 \<and> (2::nat) \<le> 3 \<and>
   raised (oracle_multiples_state 4 3 0 None None None None False None) = None \<and>
   get_remainders_power_2 4 (int 3 - 1) = [1, 2, 0] \<and>
   calls (oracle_multiples_state 4 3 0 None None None None False None) = [1, 2, 0, 3, 4] \<and>
   built_by (the (circuits_sums (oracle_multiples_state 4 3 0 None None None None False None)
                    (4 - [1, 2, 0] ! 1))) < 3 \<and>
   4 - [1, 2, 0] ! 1 \<in> set [1, 2, 0 :: int]"
proof -
  have r: "get_remainders_power_2 4 (int 3 - 1) = [1, 2, 0]" using remainders_4_2 by simp
  have nr: "raised (oracle_multiples_state 4 3 0 None None None None False None) = None"
    using oracle_multiples_state_run[where k = 4 and n = 3 and ap = 0 and orc = None
      and qo = None and qc = None and sc = None and init_H = False and cr = None]
    by simp
  have rc: "record_calls [] [1, 2, 0 :: int] = [1, 2, 0]" by simp
  have le: "(2::int) \<le> 4" "(2::nat) \<le> 3" by simp_all
  note t = oracle_multiples_reuse[OF le nr, unfolded r rc]
  have c: "calls (oracle_multiples_state 4 3 0 None None None None False None) = [1, 2, 0, 3, 4]"
    using t by simp
  from t have q: "\<forall>i<3. built_by (the (circuits_sums
           (oracle_multiples_state 4 3 0 None None None None False None) (4 - [1, 2, 0] ! i)))
         < length [1, 2, 0 :: int] \<longleftrightarrow> 4 - [1, 2, 0] ! i \<in> set [1, 2, 0 :: int]"
    by (elim conjE)
  have "built_by (the (circuits_sums (oracle_multiples_state 4 3 0 None None None None False None)
                    (4 - [1, 2, 0] ! 1))) < length [1, 2, 0 :: int]
        \<longleftrightarrow> 4 - [1, 2, 0] ! 1 \<in> set [1, 2, 0 :: int]"
    by (rule q[rule_format]) simp
  then show ?thesis using nr r c by simp
qed

text \<open>
  For \<open>k = 3\<close> on two input qubits the remainders are \<open>[1, 2]\<close>.  The first fold-out
  reference, for the wire with raw remainder 1, appends the adder of the addend 2 that
  call number 1 built during fold-in for the other wire, although \<open>1 \<noteq> 3 - 1\<close> and 3 is
  odd.
\<close>

theorem oracle_multiples_reuse_counterexample:
  "get_remainders_power_2 3 (int 2 - 1) = [1, 2] \<and>
   calls (oracle_multiples_state 3 2 0 None None None None False None) = [1, 2] \<and>
   adders (circuit (oracle_multiples_state 3 2 0 None None None None False None)) ! 1 =
     (the (circuits_sums (oracle_multiples_state 3 2 0 None None None None False None) 2),
      [Input 1, Remainders 0, Remainders 1, Remainders 2, Ancilla 0]) \<and>
   adders (circuit (oracle_multiples_state 3 2 0 None None None None False None)) ! 2 =
     (the (circuits_sums (oracle_multiples_state 3 2 0 None None None None False None) 2),
      [Input 0, Remainders 0, Remainders 1, Remainders 2, Ancilla 0]) \<and>
   built_by (the (circuits_sums (oracle_multiples_state 3 2 0 None None None None False None) 2)) = 1 \<and>
   [1, 2] ! 0 \<noteq> 3 - [1, 2 :: int] ! 0 \<and> odd (3 :: int)"
  using remainders_3_1 oracle_3_2(3,4,6) by simp




section \<open>Properties of the modular adder on states\<close>

lemma run_append:
  "run (xs @ ys) \<psi> = (case run xs \<psi> of None \<Rightarrow> None | Some \<psi>' \<Rightarrow> run ys \<psi>')"
  by (induction xs arbitrary: \<psi>) (auto split: option.splits)

subsection \<open>Registers\<close>

lemma put_apply: "put q b \<sigma> q' = (if q' = q then b else \<sigma> q')"
  by (simp add: put_def)

lemma put_eq [simp]: "put q b \<sigma> q = b"
  by (simp add: put_def)

lemma put_neq [simp]: "q' \<noteq> q \<Longrightarrow> put q b \<sigma> q' = \<sigma> q'"
  by (simp add: put_def)

lemma put_same: "\<sigma> q = b \<Longrightarrow> put q b \<sigma> = \<sigma>"
  by (auto simp: put_def)

lemma reg_val_lt: "reg_val qs \<sigma> < 2 ^ length qs"
  by (induction qs) auto

lemma set_reg_outside: "q \<notin> set qs \<Longrightarrow> set_reg qs x \<sigma> q = \<sigma> q"
  by (induction qs arbitrary: x) auto

lemma reg_val_cong: "(\<And>q. q \<in> set qs \<Longrightarrow> \<sigma> q = \<tau> q) \<Longrightarrow> reg_val qs \<sigma> = reg_val qs \<tau>"
  by (induction qs) auto

lemma rev_val_cong: "(\<And>q. q \<in> set qs \<Longrightarrow> \<sigma> q = \<tau> q) \<Longrightarrow> rev_val qs \<sigma> = rev_val qs \<tau>"
  by (induction qs) auto

lemma reg_val_put: "q \<notin> set qs \<Longrightarrow> reg_val qs (put q b \<sigma>) = reg_val qs \<sigma>"
  by (rule reg_val_cong) (auto simp: put_apply)

lemma rev_val_put: "q \<notin> set qs \<Longrightarrow> rev_val qs (put q b \<sigma>) = rev_val qs \<sigma>"
  by (rule rev_val_cong) (auto simp: put_apply)

lemma reg_val_set_reg:
  "distinct qs \<Longrightarrow> x < 2 ^ length qs \<Longrightarrow> reg_val qs (set_reg qs x \<sigma>) = x"
proof (induction qs arbitrary: x)
  case Nil
  then show ?case by simp
next
  case (Cons q qs)
  have "x div 2 < 2 ^ length qs" using Cons.prems(2) by simp
  then have "reg_val qs (set_reg qs (x div 2) \<sigma>) = x div 2"
    using Cons.IH[of "x div 2"] Cons.prems(1) by simp
  then show ?case using Cons.prems(1) by (auto simp: reg_val_put elim: oddE)
qed

lemma set_reg_inside_cong:
  "(\<And>q. q \<notin> set qs \<Longrightarrow> \<sigma> q = \<tau> q) \<Longrightarrow> set_reg qs x \<sigma> = set_reg qs x \<tau>"
proof (induction qs arbitrary: x)
  case Nil
  then show ?case by auto
next
  case (Cons q qs)
  have "set_reg (q # qs) x \<sigma> q' = set_reg (q # qs) x \<tau> q'" for q'
  proof (cases "q' = q")
    case True then show ?thesis by simp
  next
    case False
    show ?thesis
    proof (cases "q' \<in> set qs")
      case False
      then show ?thesis using \<open>q' \<noteq> q\<close> Cons.prems[of q'] by (simp add: set_reg_outside)
    next
      case True
      have "set_reg qs y \<sigma> q' = set_reg qs y \<tau> q'" for y
        using True
      proof (induction qs arbitrary: y)
        case Nil then show ?case by simp
      next
        case (Cons a qs)
        then show ?case by (cases "q' = a") auto
      qed
      then show ?thesis using \<open>q' \<noteq> q\<close> by simp
    qed
  qed
  then show ?case by (rule ext)
qed

lemma set_reg_set_reg: "set_reg qs x (set_reg qs y \<sigma>) = set_reg qs x \<sigma>"
  by (rule set_reg_inside_cong) (simp add: set_reg_outside)

lemma set_reg_reg_val: "set_reg qs (reg_val qs \<sigma>) \<sigma> = \<sigma>"
  by (induction qs) (auto simp: put_same)

lemma set_reg_eq_iff:
  assumes "distinct qs" "x < 2 ^ length qs"
  shows "set_reg qs x \<tau> = \<sigma> \<longleftrightarrow> (\<forall>q. q \<notin> set qs \<longrightarrow> \<tau> q = \<sigma> q) \<and> reg_val qs \<sigma> = x"
proof
  assume e: "set_reg qs x \<tau> = \<sigma>"
  then show "(\<forall>q. q \<notin> set qs \<longrightarrow> \<tau> q = \<sigma> q) \<and> reg_val qs \<sigma> = x"
    using set_reg_outside[of _ qs x \<tau>] reg_val_set_reg[OF assms, of \<tau>] by auto
next
  assume a: "(\<forall>q. q \<notin> set qs \<longrightarrow> \<tau> q = \<sigma> q) \<and> reg_val qs \<sigma> = x"
  then have "set_reg qs x \<tau> = set_reg qs x \<sigma>" by (intro set_reg_inside_cong) simp
  then show "set_reg qs x \<tau> = \<sigma>" using a set_reg_reg_val[of qs \<sigma>] by simp
qed

subsection \<open>Turns\<close>

lemma turn_zero [simp]: "turn 0 N = 1"
  by (simp add: turn_def)

lemma turn_add: "turn (a + b) N = turn a N * turn b N"
  by (simp add: turn_def cis_mult add_divide_distrib ring_distribs)

lemma turn_full: "0 < N \<Longrightarrow> turn (int N * q) N = 1"
proof -
  assume "0 < N"
  then have "2 * pi * real_of_int (int N * q) / real N = 2 * pi * real_of_int q" by simp
  then show ?thesis unfolding turn_def by (simp add: cis_multiple_2pi)
qed

lemma turn_cong:
  assumes "0 < N" "a mod int N = b mod int N"
  shows "turn a N = turn b N"
proof -
  have "a = b mod int N + int N * (a div int N)" using assms(2) by (metis mod_mult_div_eq)
  then have "turn a N = turn (b mod int N) N * turn (int N * (a div int N)) N"
    by (metis turn_add)
  moreover have "b = b mod int N + int N * (b div int N)" by simp
  then have "turn b N = turn (b mod int N) N * turn (int N * (b div int N)) N"
    by (metis turn_add)
  ultimately show ?thesis using assms(1) by (simp add: turn_full)
qed

lemma turn_half: "turn (d * 2 ^ w) (2 ^ Suc w) = (if even d then 1 else - 1)"
proof -
  have "2 * pi * real_of_int (d * 2 ^ w) / real (2 ^ Suc w) = pi * real_of_int d"
    by (simp add: field_simps)
  then have "turn (d * 2 ^ w) (2 ^ Suc w) = cis (pi * real_of_int d)"
    unfolding turn_def by simp
  also have "\<dots> = (if even d then 1 else - 1)"
  proof (cases "even d")
    case True
    then obtain e where "d = 2 * e" by (elim evenE)
    then have "pi * real_of_int d = 2 * pi * real_of_int e" by simp
    then have "cis (pi * real_of_int d) = cis (2 * pi * real_of_int e)" by (rule arg_cong)
    then show ?thesis using True by (simp add: cis_multiple_2pi)
  next
    case False
    then obtain e where "d = 2 * e + 1" by (elim oddE)
    then have "pi * real_of_int d = 2 * pi * real_of_int e + pi" by (simp add: algebra_simps)
    then have "cis (pi * real_of_int d) = cis (2 * pi * real_of_int e + pi)" by (rule arg_cong)
    also have "\<dots> = cis (2 * pi * real_of_int e) * cis pi" by (simp only: cis_mult)
    also have "\<dots> = - 1" by (simp add: cis_multiple_2pi)
    finally show ?thesis using False by simp
  qed
  finally show ?thesis .
qed

lemma turn_double: "turn (2 * a) (2 ^ Suc w) = turn a (2 ^ w)"
  by (simp add: turn_def field_simps)

subsection \<open>Bit reversal\<close>

lemma rev_val_set_reg: "distinct qs \<Longrightarrow> rev_val qs (set_reg qs y \<tau>) = brev (length qs) y"
  by (induction qs arbitrary: y) (auto simp: rev_val_put)

lemma sum_double: "(\<Sum>y < 2 * n. f y) = (\<Sum>y < n. f (2 * y) + f (2 * y + 1))" for f :: "nat \<Rightarrow> complex"
  by (induction n) (simp_all add: algebra_simps)

lemma brev_sum:
  "(\<Sum>y < 2 ^ w. turn (d * int (brev w y)) (2 ^ w)) = (if 2 ^ w dvd d then 2 ^ w else 0)"
proof (induction w arbitrary: d)
  case 0
  then show ?case by simp
next
  case (Suc w)
  have split: "(\<Sum>y < 2 ^ Suc w. turn (d * int (brev (Suc w) y)) (2 ^ Suc w)) =
        (\<Sum>y < 2 ^ w. turn (d * int (brev w y)) (2 ^ Suc w) +
                        turn (d * 2 ^ w) (2 ^ Suc w) * turn (d * int (brev w y)) (2 ^ Suc w))"
  proof -
    have "(\<Sum>y < 2 ^ Suc w. turn (d * int (brev (Suc w) y)) (2 ^ Suc w)) =
          (\<Sum>y < 2 ^ w. turn (d * int (brev (Suc w) (2 * y))) (2 ^ Suc w) +
                          turn (d * int (brev (Suc w) (2 * y + 1))) (2 ^ Suc w))"
      using sum_double[of "\<lambda>y. turn (d * int (brev (Suc w) y)) (2 ^ Suc w)" "2 ^ w"] by simp
    also have "\<dots> = (\<Sum>y < 2 ^ w. turn (d * int (brev w y)) (2 ^ Suc w) +
                        turn (d * 2 ^ w) (2 ^ Suc w) * turn (d * int (brev w y)) (2 ^ Suc w))"
    proof (rule sum.cong[OF refl])
      fix y
      have "d * int (brev (Suc w) (2 * y + 1)) = d * 2 ^ w + d * int (brev w y)"
        by (simp add: algebra_simps)
      then have "turn (d * int (brev (Suc w) (2 * y + 1))) (2 ^ Suc w) =
                 turn (d * 2 ^ w) (2 ^ Suc w) * turn (d * int (brev w y)) (2 ^ Suc w)"
        by (metis turn_add)
      moreover have "brev (Suc w) (2 * y) = brev w y" by simp
      ultimately show "turn (d * int (brev (Suc w) (2 * y))) (2 ^ Suc w) +
                turn (d * int (brev (Suc w) (2 * y + 1))) (2 ^ Suc w) =
            turn (d * int (brev w y)) (2 ^ Suc w) +
                turn (d * 2 ^ w) (2 ^ Suc w) * turn (d * int (brev w y)) (2 ^ Suc w)"
        by simp
    qed
    finally show ?thesis .
  qed
  show ?case
  proof (cases "even d")
    case False
    then have "\<not> 2 ^ Suc w dvd d" by (metis dvd_power_le dvd_trans even_numeral le_add1 plus_1_eq_Suc power_one_right dvd_refl)
    moreover have "(\<Sum>y < 2 ^ Suc w. turn (d * int (brev (Suc w) y)) (2 ^ Suc w)) = 0"
      unfolding split turn_half using False by simp
    ultimately show ?thesis by simp
  next
    case True
    then obtain e where e: "d = 2 * e" by (elim evenE)
    have "(\<Sum>y < 2 ^ Suc w. turn (d * int (brev (Suc w) y)) (2 ^ Suc w)) =
          (\<Sum>y < 2 ^ w. 2 * turn (e * int (brev w y)) (2 ^ w))"
      unfolding split turn_half using True
      by (simp add: e mult.assoc turn_double del: power_Suc)
    also have "\<dots> = 2 * (\<Sum>y < 2 ^ w. turn (e * int (brev w y)) (2 ^ w))"
      by (simp add: sum_distrib_left)
    also have "\<dots> = (if 2 ^ w dvd e then 2 ^ Suc w else 0)"
      unfolding Suc.IH by simp
    also have "(2 ^ w dvd e) = (2 ^ Suc w dvd d)" by (simp add: e)
    finally show ?thesis .
  qed
qed

lemma agree_off_refl [simp]: "agree_off qs \<sigma> \<sigma>"
  by (simp add: agree_off_def)

lemma agree_off_set_reg [simp]: "agree_off qs (set_reg qs y \<tau>) \<sigma> = agree_off qs \<tau> \<sigma>"
  by (auto simp: agree_off_def set_reg_outside)

lemma same_assignment:
  assumes "agree_off qs \<tau> \<sigma>" "reg_val qs \<tau> = reg_val qs \<sigma>"
  shows "\<tau> = \<sigma>"
proof -
  have "set_reg qs (reg_val qs \<sigma>) \<tau> = set_reg qs (reg_val qs \<sigma>) \<sigma>"
    using assms(1) unfolding agree_off_def by (intro set_reg_inside_cong) simp
  then have "set_reg qs (reg_val qs \<tau>) \<tau> = set_reg qs (reg_val qs \<sigma>) \<sigma>"
    by (simp only: assms(2))
  then show ?thesis by (simp only: set_reg_reg_val)
qed

lemma set_reg_eq_iff':
  assumes "distinct qs" "x < 2 ^ length qs"
  shows "(set_reg qs x \<tau> = \<sigma>) = (x = reg_val qs \<sigma> \<and> agree_off qs \<tau> \<sigma>)"
proof -
  have "(set_reg qs x \<tau> = \<sigma>) = (agree_off qs \<tau> \<sigma> \<and> reg_val qs \<sigma> = x)"
    unfolding agree_off_def by (rule set_reg_eq_iff[OF assms])
  also have "\<dots> = (x = reg_val qs \<sigma> \<and> agree_off qs \<tau> \<sigma>)" by auto
  finally show ?thesis .
qed

lemma qft_basis:
  assumes "distinct qs"
  shows "qft False qs (basis \<sigma>) = phase_state qs \<sigma>"
proof (rule ext)
  fix \<tau>
  let ?N = "2 ^ length qs :: nat"
  let ?v = "if agree_off qs \<tau> \<sigma>
                 then turn (int (reg_val qs \<sigma>) * int (rev_val qs \<tau>)) ?N else 0"
  have "(\<Sum>x < ?N. turn (int x * int (rev_val qs \<tau>)) ?N * basis \<sigma> (set_reg qs x \<tau>)) =
        (\<Sum>x < ?N. if x = reg_val qs \<sigma> then ?v else 0)"
  proof (rule sum.cong[OF refl])
    fix x assume "x \<in> {..<?N}"
    then have x: "x < 2 ^ length qs" by simp
    show "turn (int x * int (rev_val qs \<tau>)) ?N * basis \<sigma> (set_reg qs x \<tau>) =
          (if x = reg_val qs \<sigma> then ?v else 0)"
      unfolding basis_def set_reg_eq_iff'[OF assms x] by auto
  qed
  also have "\<dots> = ?v"
    using reg_val_lt[of qs \<sigma>] by (simp add: sum.delta)
  finally have e: "(\<Sum>x < ?N. turn (int x * int (rev_val qs \<tau>)) ?N * basis \<sigma> (set_reg qs x \<tau>)) = ?v" .
  show "qft False qs (basis \<sigma>) \<tau> = phase_state qs \<sigma> \<tau>"
    unfolding qft_def phase_state_def if_False e by (cases "agree_off qs \<tau> \<sigma>") simp_all
qed

lemma sqrt_sq_complex: "complex_of_real (sqrt (2 ^ w)) * complex_of_real (sqrt (2 ^ w)) = 2 ^ w"
proof -
  have "sqrt (2 ^ w) * sqrt (2 ^ w) = (2 ^ w :: real)" by simp
  then have "complex_of_real (sqrt (2 ^ w) * sqrt (2 ^ w)) = complex_of_real (2 ^ w)" by simp
  then show ?thesis by (simp only: of_real_mult of_real_power of_real_numeral)
qed

lemma iqft_phase:
  assumes "distinct qs"
  shows "qft True qs (phase_state qs \<sigma>) = basis \<sigma>"
proof (rule ext)
  fix \<tau>
  let ?w = "length qs"
  let ?N = "2 ^ length qs :: nat"
  let ?s = "complex_of_real (sqrt (2 ^ length qs))"
  let ?d = "int (reg_val qs \<sigma>) - int (reg_val qs \<tau>)"
  have s0: "?s \<noteq> 0" by simp
  have trm: "turn (- (int (reg_val qs \<tau>) * int (rev_val qs (set_reg qs y \<tau>)))) ?N *
              phase_state qs \<sigma> (set_reg qs y \<tau>) =
              (if agree_off qs \<tau> \<sigma>
               then turn (?d * int (brev ?w y)) ?N / ?s else 0)" for y
  proof -
    have "turn (- (int (reg_val qs \<tau>) * int (brev ?w y))) ?N *
          turn (int (reg_val qs \<sigma>) * int (brev ?w y)) ?N = turn (?d * int (brev ?w y)) ?N"
      unfolding turn_add[symmetric] by (simp add: algebra_simps)
    then have m: "turn (- (int (reg_val qs \<tau>) * int (brev ?w y))) ?N *
          (turn (int (reg_val qs \<sigma>) * int (brev ?w y)) ?N / ?s) = turn (?d * int (brev ?w y)) ?N / ?s"
      by (simp only: times_divide_eq_right)
    show ?thesis
      unfolding phase_state_def agree_off_set_reg rev_val_set_reg[OF assms]
      by (cases "agree_off qs \<tau> \<sigma>") (simp_all only: if_True if_False m mult_zero_right)
  qed
  have "qft True qs (phase_state qs \<sigma>) \<tau> =
        (\<Sum>y < ?N. if agree_off qs \<tau> \<sigma>
               then turn (?d * int (brev ?w y)) ?N / ?s else 0) / ?s"
    unfolding qft_def if_True trm ..
  also have "\<dots> = (if agree_off qs \<tau> \<sigma>
               then (\<Sum>y < ?N. turn (?d * int (brev ?w y)) ?N) / ?s / ?s else 0)"
    by (cases "agree_off qs \<tau> \<sigma>") (simp_all add: sum_divide_distrib)
  also have "\<dots> = (if agree_off qs \<tau> \<sigma>
               then (if 2 ^ ?w dvd ?d then 2 ^ ?w else 0) / (?s * ?s) else 0)"
    unfolding brev_sum by simp
  also have "\<dots> = (if agree_off qs \<tau> \<sigma> \<and> 2 ^ ?w dvd ?d then 1 else 0)"
    unfolding sqrt_sq_complex by simp
  also have "\<dots> = basis \<sigma> \<tau>"
  proof -
    have "(2 ^ ?w dvd ?d) = (reg_val qs \<tau> = reg_val qs \<sigma>)"
    proof
      assume dv: "2 ^ ?w dvd ?d"
      have a: "int (reg_val qs \<sigma>) < 2 ^ ?w"
        using reg_val_lt[of qs \<sigma>] by (simp only: of_nat_less_iff[symmetric, where 'a = int] of_nat_power of_nat_numeral)
      have b: "int (reg_val qs \<tau>) < 2 ^ ?w"
        using reg_val_lt[of qs \<tau>] by (simp only: of_nat_less_iff[symmetric, where 'a = int] of_nat_power of_nat_numeral)
      have lt: "\<bar>?d\<bar> < 2 ^ ?w" using a b by linarith
      have "?d = 0"
      proof (rule ccontr)
        assume "?d \<noteq> 0"
        then have "\<bar>2 ^ ?w :: int\<bar> \<le> \<bar>?d\<bar>" using dv by (rule dvd_imp_le_int)
        then show False using lt by simp
      qed
      then show "reg_val qs \<tau> = reg_val qs \<sigma>" by simp
    qed simp
    then show ?thesis
      unfolding basis_def using same_assignment[of qs \<tau> \<sigma>] by auto
  qed
  finally show "qft True qs (phase_state qs \<sigma>) \<tau> = basis \<sigma> \<tau>" .
qed

subsection \<open>Phase gates on a register in the Fourier basis\<close>

lemma rev_val_index:
  "rev_val qs \<tau> = (\<Sum>i<length qs. if \<tau> (qs ! i) then 2 ^ (length qs - Suc i) else 0)"
proof (induction qs)
  case Nil
  show ?case by simp
next
  case (Cons q qs)
  have e: "(\<Sum>i<Suc (length qs). if \<tau> ((q # qs) ! i) then 2 ^ (Suc (length qs) - Suc i) else (0::nat)) =
        (if \<tau> q then 2 ^ length qs else 0) +
        (\<Sum>i<length qs. if \<tau> (qs ! i) then 2 ^ (length qs - Suc i) else 0)"
    unfolding sum.lessThan_Suc_shift by (simp cong: if_cong)
  have "rev_val (q # qs) \<tau> = (if \<tau> q then 2 ^ length qs else 0) + rev_val qs \<tau>" by simp
  also have "\<dots> = (if \<tau> q then 2 ^ length qs else 0) +
        (\<Sum>i<length qs. if \<tau> (qs ! i) then 2 ^ (length qs - Suc i) else 0)"
    unfolding Cons ..
  also note e[symmetric]
  finally show ?case unfolding length_Cons .
qed

lemma turn_prod: "(\<Prod>i<n. turn (g i) N) = turn (\<Sum>i<n. g i) N" for n :: nat
  by (induction n) (simp_all add: turn_add mult.commute)

lemma turn_scale:
  assumes "0 < k"
  shows "turn (a * int k) (N * k) = turn a N"
proof -
  have "2 * pi * real_of_int (a * int k) / real (N * k) = 2 * pi * real_of_int a / real N"
    using assms by simp
  then show ?thesis unfolding turn_def by (rule arg_cong)
qed

lemma prod_phase:
  assumes "\<forall>i<length t. cis (\<theta> i) = turn (d * 2 ^ (length t - Suc i)) (2 ^ length t)"
  shows "(\<Prod>i<length t. if b \<and> \<tau> (t ! i) then cis (\<theta> i) else 1) =
         turn ((if b then d else 0) * int (rev_val t \<tau>)) (2 ^ length t)"
proof (cases b)
  case False
  then show ?thesis by simp
next
  case True
  let ?N = "2 ^ length t :: nat"
  have "(\<Prod>i<length t. if b \<and> \<tau> (t ! i) then cis (\<theta> i) else 1) =
        (\<Prod>i<length t. turn (if \<tau> (t ! i) then d * 2 ^ (length t - Suc i) else 0) ?N)"
  proof (rule prod.cong[OF refl])
    fix i assume "i \<in> {..<length t}"
    then have "cis (\<theta> i) = turn (d * 2 ^ (length t - Suc i)) ?N" using assms by simp
    then show "(if b \<and> \<tau> (t ! i) then cis (\<theta> i) else 1) =
               turn (if \<tau> (t ! i) then d * 2 ^ (length t - Suc i) else 0) ?N"
      using True by simp
  qed
  also have "\<dots> = turn (\<Sum>i<length t. if \<tau> (t ! i) then d * 2 ^ (length t - Suc i) else 0) ?N"
    by (rule turn_prod)
  also have "(\<Sum>i<length t. if \<tau> (t ! i) then d * 2 ^ (length t - Suc i) else 0) =
             d * int (rev_val t \<tau>)"
  proof -
    have "d * int (rev_val t \<tau>) =
          (\<Sum>i<length t. d * int (if \<tau> (t ! i) then 2 ^ (length t - Suc i) else 0))"
      unfolding rev_val_index of_nat_sum sum_distrib_left ..
    also have "\<dots> = (\<Sum>i<length t. if \<tau> (t ! i) then d * 2 ^ (length t - Suc i) else 0)"
      by (rule sum.cong[OF refl]) simp
    finally show ?thesis by (rule sym)
  qed
  finally show ?thesis using True by simp
qed

lemma run_CP_list:
  "run (map (\<lambda>i. CP (\<theta> i) c (t ! i)) [0..<n]) \<psi> =
     Some (\<lambda>\<tau>. (\<Prod>i<n. if \<tau> c \<and> \<tau> (t ! i) then cis (\<theta> i) else 1) * \<psi> \<tau>)"
proof (induction n)
  case 0
  show ?case by simp
next
  case (Suc n)
  show ?case
    unfolding upt_Suc_append[OF le0] map_append run_append Suc
    by (simp add: fun_eq_iff)
qed

lemma run_P_list:
  "run (map (\<lambda>i. P (\<theta> i) (t ! i)) [0..<n]) \<psi> =
     Some (\<lambda>\<tau>. (\<Prod>i<n. if True \<and> \<tau> (t ! i) then cis (\<theta> i) else 1) * \<psi> \<tau>)"
proof (induction n)
  case 0
  show ?case by simp
next
  case (Suc n)
  show ?case
    unfolding upt_Suc_append[OF le0] map_append run_append Suc
    by (simp add: fun_eq_iff)
qed

lemma addN_lt: "addN w y d < 2 ^ w"
proof -
  have "(int y + d) mod 2 ^ w < 2 ^ w" by simp
  moreover have "0 \<le> (int y + d) mod 2 ^ w" by simp
  ultimately have "int (addN w y d) < int (2 ^ w)" unfolding addN_def by simp
  then show ?thesis by (simp only: of_nat_less_iff)
qed

lemma int_addN: "int (addN w y d) = (int y + d) mod 2 ^ w"
  unfolding addN_def by simp

lemma agree_off_set_reg2 [simp]: "agree_off qs \<tau> (set_reg qs y \<sigma>) = agree_off qs \<tau> \<sigma>"
  by (auto simp: agree_off_def set_reg_outside)

lemma phase_state_shift:
  assumes "distinct t"
  shows "phase_state t (set_reg t (addN (length t) (reg_val t \<rho>) d) \<rho>) \<tau> =
         turn (d * int (rev_val t \<tau>)) (2 ^ length t) * phase_state t \<rho> \<tau>"
proof -
  let ?N = "2 ^ length t :: nat"
  let ?y = "addN (length t) (reg_val t \<rho>) d"
  let ?r = "int (rev_val t \<tau>)"
  let ?s = "complex_of_real (sqrt (2 ^ length t))"
  have rv: "reg_val t (set_reg t ?y \<rho>) = ?y"
    by (rule reg_val_set_reg[OF assms addN_lt])
  have "((int (reg_val t \<rho>) + d) mod 2 ^ length t * ?r) mod int ?N =
        ((int (reg_val t \<rho>) + d) * ?r) mod int ?N"
    by (simp add: mod_mult_left_eq)
  then have "turn (int ?y * ?r) ?N = turn ((int (reg_val t \<rho>) + d) * ?r) ?N"
    unfolding int_addN by (intro turn_cong) simp_all
  also have "\<dots> = turn (d * ?r) ?N * turn (int (reg_val t \<rho>) * ?r) ?N"
    unfolding turn_add[symmetric] by (simp add: algebra_simps)
  finally have m: "turn (int ?y * ?r) ?N / ?s =
                   turn (d * ?r) ?N * (turn (int (reg_val t \<rho>) * ?r) ?N / ?s)"
    by (simp only: times_divide_eq_right)
  show ?thesis
    unfolding phase_state_def agree_off_set_reg2 rv
    by (cases "agree_off t \<tau> \<rho>") (simp_all only: if_True if_False m mult_zero_right)
qed

lemma cpadd:
  assumes "distinct t" "q \<notin> set t"
    and "\<forall>i<length t. cis (\<theta> i) = turn (d * 2 ^ (length t - Suc i)) (2 ^ length t)"
  shows "run (map (\<lambda>i. CP (\<theta> i) q (t ! i)) [0..<length t]) (phase_state t \<rho>) =
         Some (phase_state t (set_reg t (addN (length t) (reg_val t \<rho>) (if \<rho> q then d else 0)) \<rho>))"
proof -
  have "(\<Prod>i<length t. if \<tau> q \<and> \<tau> (t ! i) then cis (\<theta> i) else 1) * phase_state t \<rho> \<tau> =
        phase_state t (set_reg t (addN (length t) (reg_val t \<rho>) (if \<rho> q then d else 0)) \<rho>) \<tau>" for \<tau>
  proof (cases "agree_off t \<tau> \<rho>")
    case False
    then have "phase_state t \<rho> \<tau> = 0" by (simp add: phase_state_def)
    then show ?thesis unfolding phase_state_shift[OF assms(1)] by simp
  next
    case True
    then have "\<tau> q = \<rho> q" using assms(2) by (simp add: agree_off_def)
    then show ?thesis
      unfolding phase_state_shift[OF assms(1)] prod_phase[OF assms(3)] by simp
  qed
  then show ?thesis unfolding run_CP_list by simp
qed

lemma padd:
  assumes "distinct t"
    and "\<forall>i<length t. cis (\<theta> i) = turn (d * 2 ^ (length t - Suc i)) (2 ^ length t)"
  shows "run (map (\<lambda>i. P (\<theta> i) (t ! i)) [0..<length t]) (phase_state t \<rho>) =
         Some (phase_state t (set_reg t (addN (length t) (reg_val t \<rho>) d) \<rho>))"
proof -
  have "(\<Prod>i<length t. if True \<and> \<tau> (t ! i) then cis (\<theta> i) else 1) * phase_state t \<rho> \<tau> =
        phase_state t (set_reg t (addN (length t) (reg_val t \<rho>) d) \<rho>) \<tau>" for \<tau>
    unfolding phase_state_shift[OF assms(1)] prod_phase[OF assms(2)] by simp
  then show ?thesis unfolding run_P_list by simp
qed

subsection \<open>The angles of the source as turns\<close>

lemma angle_turn:
  assumes "0 \<le> m" "i < w"
  shows "cis (real (nat m mod 2 ^ Suc i) / 2 ^ i * pi) = turn (m * 2 ^ (w - Suc i)) (2 ^ w)"
    and "cis (- (real (nat m mod 2 ^ Suc i) / 2 ^ i * pi)) = turn (- m * 2 ^ (w - Suc i)) (2 ^ w)"
proof -
  let ?r = "nat m mod 2 ^ Suc i"
  have w: "(2::nat) ^ w = 2 ^ Suc i * 2 ^ (w - Suc i)"
    using assms(2) by (simp add: power_add[symmetric] del: power_Suc)
  have ir: "int ?r = m mod 2 ^ Suc i"
    using assms(1) by (simp add: zmod_int)
  have a: "real ?r / 2 ^ i * pi = 2 * pi * real_of_int (int ?r) / real (2 ^ Suc i)"
    by simp
  have "cis (real ?r / 2 ^ i * pi) = turn (int ?r) (2 ^ Suc i)"
    unfolding turn_def a ..
  also have "\<dots> = turn m (2 ^ Suc i)"
    by (rule turn_cong) (simp_all add: ir del: power_Suc)
  also have "\<dots> = turn (m * int (2 ^ (w - Suc i))) (2 ^ Suc i * 2 ^ (w - Suc i))"
    by (rule turn_scale[symmetric]) simp
  finally show "cis (real ?r / 2 ^ i * pi) = turn (m * 2 ^ (w - Suc i)) (2 ^ w)"
    unfolding w by simp
  have b: "- (real ?r / 2 ^ i * pi) = 2 * pi * real_of_int (- int ?r) / real (2 ^ Suc i)"
    by simp
  have "cis (- (real ?r / 2 ^ i * pi)) = turn (- int ?r) (2 ^ Suc i)"
    unfolding turn_def b ..
  also have "\<dots> = turn (- m) (2 ^ Suc i)"
    by (rule turn_cong) (simp_all add: ir mod_minus_eq del: power_Suc)
  also have "\<dots> = turn (- m * int (2 ^ (w - Suc i))) (2 ^ Suc i * 2 ^ (w - Suc i))"
    by (rule turn_scale[symmetric]) simp
  finally show "cis (- (real ?r / 2 ^ i * pi)) = turn (- m * 2 ^ (w - Suc i)) (2 ^ w)"
    unfolding w by simp
qed

subsection \<open>Classical gates on basis states\<close>

lemma put_flip: "put q (\<not> put q (\<not> \<tau> q) \<tau> q) (put q (\<not> \<tau> q) \<tau>) = \<tau>"
proof (rule ext)
  fix x
  show "put q (\<not> put q (\<not> \<tau> q) \<tau> q) (put q (\<not> \<tau> q) \<tau>) x = \<tau> x"
    by (cases "x = q") simp_all
qed

lemma put_flip_eq: "(put q (\<not> \<tau> q) \<tau> = \<sigma>) = (\<tau> = put q (\<not> \<sigma> q) \<sigma>)"
proof
  assume "put q (\<not> \<tau> q) \<tau> = \<sigma>"
  then have "put q (\<not> \<sigma> q) \<sigma> = put q (\<not> put q (\<not> \<tau> q) \<tau> q) (put q (\<not> \<tau> q) \<tau>)"
    by (rule subst) (rule refl)
  then show "\<tau> = put q (\<not> \<sigma> q) \<sigma>" unfolding put_flip by (rule sym)
next
  assume "\<tau> = put q (\<not> \<sigma> q) \<sigma>"
  then have "put q (\<not> \<tau> q) \<tau> = put q (\<not> put q (\<not> \<sigma> q) \<sigma> q) (put q (\<not> \<sigma> q) \<sigma>)"
    by (rule ssubst) (rule refl)
  then show "put q (\<not> \<tau> q) \<tau> = \<sigma>" unfolding put_flip .
qed

lemma X_basis: "apply_gate (X q) (basis \<sigma>) = Some (basis (put q (\<not> \<sigma> q) \<sigma>))"
proof -
  have "basis \<sigma> (put q (\<not> \<tau> q) \<tau>) = basis (put q (\<not> \<sigma> q) \<sigma>) \<tau>" for \<tau>
    unfolding basis_def put_flip_eq ..
  then show ?thesis by simp
qed

lemma CX_basis:
  assumes "c \<noteq> t"
  shows "apply_gate (CX c t) (basis \<sigma>) = Some (basis (if \<sigma> c then put t (\<not> \<sigma> t) \<sigma> else \<sigma>))"
proof -
  have "((if \<tau> c then put t (\<not> \<tau> t) \<tau> else \<tau>) = \<sigma>) =
        (\<tau> = (if \<sigma> c then put t (\<not> \<sigma> t) \<sigma> else \<sigma>))" for \<tau>
  proof (cases "\<tau> c")
    case True
    have "put t (\<not> \<tau> t) \<tau> c = True" "put t (\<not> \<sigma> t) \<sigma> c = \<sigma> c"
      using assms True by simp_all
    then show ?thesis using True put_flip_eq[of t \<tau> \<sigma>] by (cases "\<sigma> c") auto
  next
    case False
    have "put t (\<not> \<sigma> t) \<sigma> c = \<sigma> c" using assms by simp
    then show ?thesis using False by (cases "\<sigma> c") auto
  qed
  then have "basis \<sigma> (if \<tau> c then put t (\<not> \<tau> t) \<tau> else \<tau>) =
             basis (if \<sigma> c then put t (\<not> \<sigma> t) \<sigma> else \<sigma>) \<tau>" for \<tau>
    unfolding basis_def by (rule arg_cong)
  then show ?thesis by simp
qed

lemma put_commute: "q \<noteq> q' \<Longrightarrow> put q b (put q' b' \<sigma>) = put q' b' (put q b \<sigma>)"
  by (auto simp: put_def fun_eq_iff)

lemma put_put: "put q b (put q b' \<sigma>) = put q b \<sigma>"
  by (auto simp: put_def fun_eq_iff)

lemma put_set_reg: "q \<notin> set t \<Longrightarrow> put q b (set_reg t y \<sigma>) = set_reg t y (put q b \<sigma>)"
proof (induction t arbitrary: y)
  case Nil
  show ?case by simp
next
  case (Cons a t)
  then have "q \<noteq> a" "q \<notin> set t" by auto
  then show ?case using Cons.IH[of "y div 2"] by (simp add: put_commute[of q a])
qed

lemma reg_val_bit: "i < length t \<Longrightarrow> \<sigma> (t ! i) = bit (reg_val t \<sigma>) i"
proof (induction t arbitrary: i)
  case Nil
  then show ?case by simp
next
  case (Cons q t)
  show ?case
  proof (cases i)
    case 0
    then show ?thesis by (simp add: bit_0)
  next
    case (Suc j)
    then have "j < length t" using Cons.prems by simp
    then have "\<sigma> (t ! j) = bit (reg_val t \<sigma>) j" by (rule Cons.IH)
    then show ?thesis using Suc by (simp add: bit_Suc)
  qed
qed

lemma top_bit:
  fixes y :: nat
  assumes "y < 2 ^ w" "0 < w"
  shows "bit y (w - 1) = (2 ^ (w - 1) \<le> y)"
proof -
  have w: "(2::nat) ^ w = 2 ^ (w - 1) * 2" using assms(2) by (cases w) simp_all
  have "y div 2 ^ (w - 1) < 2" using assms(1) unfolding w by (simp add: less_mult_imp_div_less)
  moreover have "(0 < y div 2 ^ (w - 1)) = (2 ^ (w - 1) \<le> y)" by (simp add: div_greater_zero_iff)
  ultimately have "odd (y div 2 ^ (w - 1)) = (2 ^ (w - 1) \<le> y)"
    by (cases "y div 2 ^ (w - 1)") auto
  then show ?thesis by (simp add: bit_iff_odd)
qed

lemma QFT_basis:
  "distinct t \<Longrightarrow> apply_gate (QFT (length t) 0 False t) (basis \<sigma>) = Some (phase_state t \<sigma>)"
  by (simp add: qft_basis)

lemma IQFT_phase:
  "distinct t \<Longrightarrow> apply_gate (QFT (length t) 0 True t) (phase_state t \<sigma>) = Some (basis \<sigma>)"
  by (simp add: iqft_phase)

lemma XCXX_basis:
  assumes "tq \<noteq> anc"
  shows "run [X tq, CX tq anc, X tq] (basis \<rho>) =
         Some (basis (if \<rho> tq then \<rho> else put anc (\<not> \<rho> anc) \<rho>))"
proof -
  let ?r1 = "put tq (\<not> \<rho> tq) \<rho>"
  let ?r2 = "if ?r1 tq then put anc (\<not> ?r1 anc) ?r1 else ?r1"
  let ?r3 = "put tq (\<not> ?r2 tq) ?r2"
  have 1: "apply_gate (X tq) (basis \<rho>) = Some (basis ?r1)" by (rule X_basis)
  have 2: "apply_gate (CX tq anc) (basis ?r1) = Some (basis ?r2)" by (rule CX_basis[OF assms])
  have 3: "apply_gate (X tq) (basis ?r2) = Some (basis ?r3)" by (rule X_basis)
  have r: "run [X tq, CX tq anc, X tq] (basis \<rho>) = Some (basis ?r3)"
    unfolding run.simps 1 2 3 option.case ..
  have "?r3 = (if \<rho> tq then \<rho> else put anc (\<not> \<rho> anc) \<rho>)"
  proof (cases "\<rho> tq")
    case True
    then have "?r2 = ?r1" by simp
    then have "?r3 = put tq (\<not> ?r1 tq) ?r1" by simp
    also have "\<dots> = \<rho>" by (rule put_flip)
    finally show ?thesis using True by simp
  next
    case False
    have a: "?r1 anc = \<rho> anc" using assms by simp
    have "?r2 = put anc (\<not> \<rho> anc) ?r1" using False a by simp
    moreover have "put anc (\<not> \<rho> anc) ?r1 tq = True" using assms False by simp
    ultimately have "?r3 = put tq False (put anc (\<not> \<rho> anc) (put tq True \<rho>))"
      using False by simp
    also have "\<dots> = put anc (\<not> \<rho> anc) (put tq False (put tq True \<rho>))"
      by (rule put_commute[OF assms])
    also have "put tq False (put tq True \<rho>) = \<rho>"
      unfolding put_put using False by (simp add: put_same)
    finally show ?thesis using False by simp
  qed
  then show ?thesis using r by simp
qed

subsection \<open>The arithmetic of the three stages\<close>

lemma mod_up: "- N \<le> z \<Longrightarrow> z < 0 \<Longrightarrow> z mod N = z + N" for z N :: int
proof -
  assume a: "- N \<le> z" "z < 0"
  have "z mod N = (z + N) mod N" by simp
  also have "\<dots> = z + N" using a by (intro mod_pos_pos_trivial) simp_all
  finally show ?thesis .
qed

lemma mod_down: "N \<le> z \<Longrightarrow> z < 2 * N \<Longrightarrow> z mod N = z - N" for z N :: int
proof -
  assume a: "N \<le> z" "z < 2 * N"
  have "z mod N = (z - N) mod N" by simp
  also have "\<dots> = z - N" using a by (intro mod_pos_pos_trivial) simp_all
  finally show ?thesis .
qed

lemma nat_le_int: "((2::nat) ^ n \<le> y) = ((2::int) ^ n \<le> int y)"
  using of_nat_le_iff[where 'a = int and m = "2 ^ n" and n = y] by simp

lemma stage_arith:
  fixes x :: nat and K d :: int
  assumes w: "0 < w" and K: "K \<le> 2 ^ (w - 1)" and x: "int x < K" and d: "0 \<le> d" "d < K"
  defines "y1 \<equiv> addN w x d"
  defines "y2 \<equiv> addN w y1 (- K)"
  defines "y3 \<equiv> addN w y2 (if 2 ^ (w - 1) \<le> y2 then K else 0)"
  defines "y4 \<equiv> addN w y3 (- d)"
  defines "y5 \<equiv> addN w y4 d"
  shows "(2 ^ (w - 1) \<le> y2) = (int x + d < K)"
    and "(2 ^ (w - 1) \<le> y4) = (\<not> (2 ^ (w - 1) \<le> y2))"
    and "y5 = nat ((int x + d) mod K)"
proof -
  define M :: int where "M = 2 ^ (w - 1)"
  define N :: int where "N = 2 * M"
  have N: "(2::int) ^ w = N" unfolding N_def M_def using w by (cases w) simp_all
  have KM: "K \<le> M" using K by (simp add: M_def)
  have i1: "int y1 = (int x + d) mod N" unfolding y1_def int_addN N ..
  have i2: "int y2 = (int y1 - K) mod N" unfolding y2_def int_addN N by simp
  have i3: "int y3 = (int y2 + (if M \<le> int y2 then K else 0)) mod N"
    unfolding y3_def int_addN N nat_le_int M_def ..
  have i4: "int y4 = (int y3 - d) mod N" unfolding y4_def int_addN N by simp
  have i5: "int y5 = (int y4 + d) mod N" unfolding y5_def int_addN N ..
  have v1: "int y1 = int x + d"
    unfolding i1 using x d KM by (intro mod_pos_pos_trivial) (simp_all add: N_def)
  have goal: "(M \<le> int y2) = (int x + d < K) \<and> (M \<le> int y4) = (\<not> (M \<le> int y2)) \<and>
              int y5 = (int x + d) mod K"
  proof (cases "int x + d < K")
    case True
    have v2: "int y2 = int x + d - K + N"
      unfolding i2 v1 using True x d KM by (intro mod_up) (simp_all add: N_def)
    have b: "M \<le> int y2" unfolding v2 using d KM by (simp add: N_def)
    have e: "int x + d - K + N + K = (int x + d) + N" by simp
    have "(int x + d - K + N + K) mod N = (int x + d) mod N"
      unfolding e by (rule mod_add_self2)
    also have "\<dots> = int x + d"
      using True d KM by (intro mod_pos_pos_trivial) (simp_all add: N_def)
    finally have v3: "int y3 = int x + d" unfolding i3 using b v2 by simp
    have v4: "int y4 = int x"
      unfolding i4 v3 using x KM by (simp add: N_def)
    have v5: "int y5 = int x + d"
      unfolding i5 v4 using True d KM by (intro mod_pos_pos_trivial) (simp_all add: N_def)
    have "(int x + d) mod K = int x + d"
      using True d by (intro mod_pos_pos_trivial) simp_all
    then show ?thesis using True b v4 v5 x KM by simp
  next
    case False
    have v2: "int y2 = int x + d - K"
      unfolding i2 v1 using False x d KM by (intro mod_pos_pos_trivial) (simp_all add: N_def)
    have b: "\<not> M \<le> int y2" unfolding v2 using x d KM by simp
    have v3: "int y3 = int x + d - K"
      unfolding i3 using b v2 False x d KM by (simp add: N_def)
    have "(int x + d - K - d) mod N = int x + d - K - d + N"
      using x d KM by (intro mod_up) (simp_all add: N_def)
    then have v4: "int y4 = int x - K + N" unfolding i4 v3 by simp
    have t4: "M \<le> int y4" unfolding v4 using KM by (simp add: N_def)
    have "(int x - K + N + d) mod N = int x - K + N + d - N"
      using False x d KM by (intro mod_down) (simp_all add: N_def)
    then have v5: "int y5 = int x + d - K" unfolding i5 v4 by simp
    have "(int x + d) mod K = int x + d - K"
      using False x d by (intro mod_down) simp_all
    then show ?thesis using False b t4 v5 by simp
  qed
  show "(2 ^ (w - 1) \<le> y2) = (int x + d < K)"
    unfolding nat_le_int using goal by (simp add: M_def)
  show "(2 ^ (w - 1) \<le> y4) = (\<not> (2 ^ (w - 1) \<le> y2))"
    unfolding nat_le_int using goal by (simp add: M_def)
  have "int y5 = (int x + d) mod K" using goal by simp
  then show "y5 = nat ((int x + d) mod K)" by simp
qed

lemma slot_reg: "distinct t \<Longrightarrow> y < 2 ^ length t \<Longrightarrow> reg_val t (slot t anc \<sigma> y b) = y"
  unfolding slot_def by (rule reg_val_set_reg)

lemma slot_other: "q \<notin> set t \<Longrightarrow> q \<noteq> anc \<Longrightarrow> slot t anc \<sigma> y b q = \<sigma> q"
  unfolding slot_def by (simp add: set_reg_outside)

lemma slot_anc: "anc \<notin> set t \<Longrightarrow> slot t anc \<sigma> y b anc = b"
  unfolding slot_def by (simp add: set_reg_outside)

lemma slot_top:
  assumes "distinct t" "0 < length t" "y < 2 ^ length t"
  shows "slot t anc \<sigma> y b (t ! (length t - 1)) = (2 ^ (length t - 1) \<le> y)"
proof -
  have "slot t anc \<sigma> y b (t ! (length t - 1)) = bit (reg_val t (slot t anc \<sigma> y b)) (length t - 1)"
    using assms(2) by (intro reg_val_bit) simp
  also have "\<dots> = bit y (length t - 1)" unfolding slot_reg[OF assms(1,3)] ..
  also have "\<dots> = (2 ^ (length t - 1) \<le> y)" by (rule top_bit[OF assms(3,2)])
  finally show ?thesis .
qed

lemma slot_set: "set_reg t z (slot t anc \<sigma> y b) = slot t anc \<sigma> z b"
  unfolding slot_def by (rule set_reg_set_reg)

lemma slot_put: "anc \<notin> set t \<Longrightarrow> put anc v (slot t anc \<sigma> y b) = slot t anc \<sigma> y v"
  unfolding slot_def by (simp add: put_set_reg put_put)

lemma slot_False: "\<not> \<sigma> anc \<Longrightarrow> slot t anc \<sigma> y False = set_reg t y \<sigma>"
  unfolding slot_def by (simp add: put_same)

lemma slot_init: "\<not> \<sigma> anc \<Longrightarrow> slot t anc \<sigma> (reg_val t \<sigma>) False = \<sigma>"
  by (simp add: slot_False set_reg_reg_val)

lemma cp_step:
  assumes "distinct t" "q \<notin> set t" "y < 2 ^ length t"
    and "\<forall>i<length t. cis (\<theta> i) = turn (d * 2 ^ (length t - Suc i)) (2 ^ length t)"
  shows "run (map (\<lambda>i. CP (\<theta> i) q (t ! i)) [0..<length t]) (phase_state t (slot t anc \<sigma> y b)) =
         Some (phase_state t (slot t anc \<sigma> (addN (length t) y (if slot t anc \<sigma> y b q then d else 0)) b))"
  unfolding cpadd[OF assms(1,2,4)] slot_reg[OF assms(1,3)] slot_set ..

lemma p_step:
  assumes "distinct t" "y < 2 ^ length t"
    and "\<forall>i<length t. cis (\<theta> i) = turn (d * 2 ^ (length t - Suc i)) (2 ^ length t)"
  shows "run (map (\<lambda>i. P (\<theta> i) (t ! i)) [0..<length t]) (phase_state t (slot t anc \<sigma> y b)) =
         Some (phase_state t (slot t anc \<sigma> (addN (length t) y d) b))"
  unfolding padd[OF assms(1,3)] slot_reg[OF assms(1,2)] slot_set ..

lemma check_step:
  assumes "distinct t" "anc \<notin> set t" "0 < length t" "y < 2 ^ length t"
  shows "run [QFT (length t) 0 True t, CX (t ! (length t - 1)) anc, QFT (length t) 0 False t]
           (phase_state t (slot t anc \<sigma> y False)) =
         Some (phase_state t (slot t anc \<sigma> y (2 ^ (length t - 1) \<le> y)))"
proof -
  let ?top = "t ! (length t - 1)"
  let ?r = "slot t anc \<sigma> y False"
  have "?top \<in> set t" using assms(3) by simp
  then have ne: "?top \<noteq> anc" using assms(2) by auto
  have "(if ?r ?top then put anc (\<not> ?r anc) ?r else ?r) = slot t anc \<sigma> y (2 ^ (length t - 1) \<le> y)"
    unfolding slot_top[OF assms(1,3,4)] slot_anc[OF assms(2)] slot_put[OF assms(2)] by simp
  then have 2: "apply_gate (CX ?top anc) (basis ?r) =
                Some (basis (slot t anc \<sigma> y (2 ^ (length t - 1) \<le> y)))"
    unfolding CX_basis[OF ne] by simp
  show ?thesis
    unfolding run.simps IQFT_phase[OF assms(1)] option.case 2 QFT_basis[OF assms(1)] ..
qed

lemma restore_step:
  assumes "distinct t" "anc \<notin> set t" "0 < length t" "y < 2 ^ length t"
    and "(2 ^ (length t - 1) \<le> y) = (\<not> b)"
  shows "run [QFT (length t) 0 True t, X (t ! (length t - 1)), CX (t ! (length t - 1)) anc,
              X (t ! (length t - 1)), QFT (length t) 0 False t]
           (phase_state t (slot t anc \<sigma> y b)) =
         Some (phase_state t (slot t anc \<sigma> y False))"
proof -
  let ?top = "t ! (length t - 1)"
  let ?r = "slot t anc \<sigma> y b"
  have "?top \<in> set t" using assms(3) by simp
  then have ne: "?top \<noteq> anc" using assms(2) by auto
  have r: "(if ?r ?top then ?r else put anc (\<not> ?r anc) ?r) = slot t anc \<sigma> y False"
    unfolding slot_top[OF assms(1,3,4)] slot_anc[OF assms(2)] slot_put[OF assms(2)] assms(5)
    by (cases b) simp_all
  have s1: "run [QFT (length t) 0 True t] (phase_state t ?r) = Some (basis ?r)"
    unfolding run.simps IQFT_phase[OF assms(1)] option.case ..
  have s2: "run [X ?top, CX ?top anc, X ?top] (basis ?r) = Some (basis (slot t anc \<sigma> y False))"
    unfolding XCXX_basis[OF ne] r ..
  have s3: "run [QFT (length t) 0 False t] (basis (slot t anc \<sigma> y False)) =
            Some (phase_state t (slot t anc \<sigma> y False))"
    unfolding run.simps QFT_basis[OF assms(1)] option.case ..
  have "run ([QFT (length t) 0 True t] @ [X ?top, CX ?top anc, X ?top] @ [QFT (length t) 0 False t])
          (phase_state t ?r) = Some (phase_state t (slot t anc \<sigma> y False))"
    unfolding run_append s1 option.case s2 s3 ..
  then show ?thesis by simp
qed

lemma core_run:
  fixes K a :: int
  assumes dist: "distinct (c # anc # t)" and w: "0 < length t"
    and K: "K \<le> 2 ^ (length t - 1)" and a: "0 \<le> a" "a < K" and K0: "0 \<le> K"
    and x: "int (reg_val t \<sigma>) < K" and anc: "\<not> \<sigma> anc"
  defines "A \<equiv> \<lambda>i. real (nat a mod 2 ^ Suc i) / 2 ^ i * pi"
    and "B \<equiv> \<lambda>i. real (nat K mod 2 ^ Suc i) / 2 ^ i * pi"
  shows "run (map (\<lambda>i. CP (A i) c (t ! i)) [0..<length t] @
              map (\<lambda>i. P (- B i) (t ! i)) [0..<length t] @
              [QFT (length t) 0 True t, CX (t ! (length t - 1)) anc, QFT (length t) 0 False t] @
              map (\<lambda>i. CP (B i) anc (t ! i)) [0..<length t] @
              map (\<lambda>i. CP (- A i) c (t ! i)) [0..<length t] @
              [QFT (length t) 0 True t, X (t ! (length t - 1)), CX (t ! (length t - 1)) anc,
               X (t ! (length t - 1)), QFT (length t) 0 False t] @
              map (\<lambda>i. CP (A i) c (t ! i)) [0..<length t])
           (phase_state t \<sigma>) =
         Some (phase_state t
           (set_reg t (nat ((int (reg_val t \<sigma>) + (if \<sigma> c then a else 0)) mod K)) \<sigma>))"
proof -
  define w where "w = length t"
  define d :: int where "d = (if \<sigma> c then a else 0)"
  define y1 where "y1 = addN w (reg_val t \<sigma>) d"
  define y2 where "y2 = addN w y1 (- K)"
  define y3 where "y3 = addN w y2 (if 2 ^ (w - 1) \<le> y2 then K else 0)"
  define y4 where "y4 = addN w y3 (- d)"
  define y5 where "y5 = addN w y4 d"
  define b where "b = (2 ^ (w - 1) \<le> y2)"
  have dt: "distinct t" and ct: "c \<notin> set t" and at: "anc \<notin> set t" and ca: "c \<noteq> anc"
    using dist by auto
  have d: "0 \<le> d" "d < K" using a K0 x unfolding d_def by auto
  have w0: "0 < w" using w by (simp add: w_def)
  have Kw: "K \<le> 2 ^ (w - 1)" using K by (simp add: w_def)
  have ar: "(2 ^ (w - 1) \<le> y4) = (\<not> b)" "y5 = nat ((int (reg_val t \<sigma>) + d) mod K)"
    unfolding b_def y5_def y4_def y3_def y2_def y1_def
    using stage_arith(2,3)[OF w0 Kw x d] by simp_all
  have lt: "reg_val t \<sigma> < 2 ^ length t" "y1 < 2 ^ length t" "y2 < 2 ^ length t"
    "y3 < 2 ^ length t" "y4 < 2 ^ length t"
    unfolding y1_def y2_def y3_def y4_def w_def by (rule reg_val_lt addN_lt)+
  have aA: "\<forall>i<length t. cis (A i) = turn (a * 2 ^ (length t - Suc i)) (2 ^ length t)"
    unfolding A_def using angle_turn(1)[OF a(1)] by simp
  have aA': "\<forall>i<length t. cis (- A i) = turn (- a * 2 ^ (length t - Suc i)) (2 ^ length t)"
    unfolding A_def using angle_turn(2)[OF a(1)] by simp
  have aB: "\<forall>i<length t. cis (B i) = turn (K * 2 ^ (length t - Suc i)) (2 ^ length t)"
    unfolding B_def using angle_turn(1)[OF K0] by simp
  have aB': "\<forall>i<length t. cis (- B i) = turn (- K * 2 ^ (length t - Suc i)) (2 ^ length t)"
    unfolding B_def using angle_turn(2)[OF K0] by simp
  have sc: "slot t anc \<sigma> y v c = \<sigma> c" for y v by (rule slot_other[OF ct ca])
  have neg: "(if \<sigma> c then - a else 0) = - d" by (simp add: d_def)
  have s1: "run (map (\<lambda>i. CP (A i) c (t ! i)) [0..<length t]) (phase_state t \<sigma>) =
            Some (phase_state t (slot t anc \<sigma> y1 False))"
    using cp_step[OF dt ct lt(1) aA, of anc \<sigma> False]
    unfolding sc slot_init[where \<sigma> = \<sigma> and anc = anc, OF anc] y1_def w_def d_def .
  have s2: "run (map (\<lambda>i. P (- B i) (t ! i)) [0..<length t]) (phase_state t (slot t anc \<sigma> y1 False)) =
            Some (phase_state t (slot t anc \<sigma> y2 False))"
    using p_step[OF dt lt(2) aB', of anc \<sigma> False] unfolding y2_def w_def .
  have s3: "run [QFT (length t) 0 True t, CX (t ! (length t - 1)) anc, QFT (length t) 0 False t]
              (phase_state t (slot t anc \<sigma> y2 False)) =
            Some (phase_state t (slot t anc \<sigma> y2 b))"
    using check_step[OF dt at w lt(3), of \<sigma>] unfolding b_def w_def .
  have s4: "run (map (\<lambda>i. CP (B i) anc (t ! i)) [0..<length t]) (phase_state t (slot t anc \<sigma> y2 b)) =
            Some (phase_state t (slot t anc \<sigma> y3 b))"
    using cp_step[OF dt at lt(3) aB, of anc \<sigma> b]
    unfolding slot_anc[OF at] y3_def b_def w_def .
  have s5: "run (map (\<lambda>i. CP (- A i) c (t ! i)) [0..<length t]) (phase_state t (slot t anc \<sigma> y3 b)) =
            Some (phase_state t (slot t anc \<sigma> y4 b))"
    using cp_step[OF dt ct lt(4) aA', of anc \<sigma> b]
    unfolding sc neg y4_def w_def .
  have s6: "run [QFT (length t) 0 True t, X (t ! (length t - 1)), CX (t ! (length t - 1)) anc,
                 X (t ! (length t - 1)), QFT (length t) 0 False t]
              (phase_state t (slot t anc \<sigma> y4 b)) =
            Some (phase_state t (slot t anc \<sigma> y4 False))"
    using ar(1) by (intro restore_step[OF dt at w lt(5)]) (simp add: w_def)
  have s7: "run (map (\<lambda>i. CP (A i) c (t ! i)) [0..<length t]) (phase_state t (slot t anc \<sigma> y4 False)) =
            Some (phase_state t (slot t anc \<sigma> y5 False))"
    using cp_step[OF dt ct lt(5) aA, of anc \<sigma> False]
    unfolding sc y5_def w_def d_def .
  have fin: "slot t anc \<sigma> y5 False =
             set_reg t (nat ((int (reg_val t \<sigma>) + (if \<sigma> c then a else 0)) mod K)) \<sigma>"
    unfolding slot_False[where \<sigma> = \<sigma> and anc = anc, OF anc] ar(2) d_def ..
  show ?thesis
    unfolding run_append s1 option.case s2 s3 s4 s5 s6 s7 fin ..
qed

lemma nth_angles:
  "map (\<lambda>i. CP (map A [0..<n] ! i) c (t ! i)) [0..<n] = map (\<lambda>i. CP (A i) c (t ! i)) [0..<n]"
  "map (\<lambda>i. CP (map uminus (map A [0..<n]) ! i) c (t ! i)) [0..<n] =
   map (\<lambda>i. CP (- A i) c (t ! i)) [0..<n]"
  "map (\<lambda>i. P (map uminus (map A [0..<n]) ! i) (t ! i)) [0..<n] =
   map (\<lambda>i. P (- A i) (t ! i)) [0..<n]"
  for A :: "nat \<Rightarrow> real"
  by (rule map_cong[OF refl], simp)+

text \<open>
  C1.  For every modulus K >= 2, addend 0 <= num_sum < K, register of
  ceil(log2 K) + 1 distinct qubits holding a value x < K, and control and ancilla qubits
  outside the register with the ancilla at 0, the circuit built by
  \<open>c_phase_add_mod_K\<close> (exact transforms, \<open>approx_QFT = 0\<close>) is built without error and
  maps the basis state of the assignment to the basis state in which the register holds
  (x + num_sum) mod K when the control is set and x when it is not; the ancilla is 0
  again and no qubit outside the register has changed.  Built without the outer
  transforms (\<open>include_QFTs = False\<close>), the circuit does the same between the
  Fourier-basis states of the register.
\<close>

theorem c_phase_add_mod_K_correct:
  fixes K num_sum :: int and \<sigma> :: "'q \<Rightarrow> bool"
  assumes "2 \<le> K" and "0 \<le> num_sum" and "num_sum < K"
    and "length target_register = ceil_log2 (nat K) + 1"
    and "distinct (control # ancilla_qubit # target_register)"
    and "int (reg_val target_register \<sigma>) < K"
    and "\<not> \<sigma> ancilla_qubit"
  shows "(\<exists>ops. c_phase_add_mod_K target_register control ancilla_qubit num_sum K 0 include_QFTs
                = Inr ops \<and>
           run ops (if include_QFTs then basis \<sigma> else phase_state target_register \<sigma>) =
           Some (if include_QFTs
                 then basis (set_reg target_register
                        (nat ((int (reg_val target_register \<sigma>) +
                               (if \<sigma> control then num_sum else 0)) mod K)) \<sigma>)
                 else phase_state target_register (set_reg target_register
                        (nat ((int (reg_val target_register \<sigma>) +
                               (if \<sigma> control then num_sum else 0)) mod K)) \<sigma>))) \<and>
         int (reg_val target_register (set_reg target_register
                (nat ((int (reg_val target_register \<sigma>) +
                       (if \<sigma> control then num_sum else 0)) mod K)) \<sigma>)) =
           (if \<sigma> control then (int (reg_val target_register \<sigma>) + num_sum) mod K
            else int (reg_val target_register \<sigma>)) \<and>
         \<not> set_reg target_register
                (nat ((int (reg_val target_register \<sigma>) +
                       (if \<sigma> control then num_sum else 0)) mod K)) \<sigma> ancilla_qubit \<and>
         set_reg target_register
                (nat ((int (reg_val target_register \<sigma>) +
                       (if \<sigma> control then num_sum else 0)) mod K)) \<sigma> control = \<sigma> control"
proof -
  let ?t = target_register
  let ?w = "length ?t"
  let ?x = "int (reg_val ?t \<sigma>)"
  let ?v = "nat ((?x + (if \<sigma> control then num_sum else 0)) mod K)"
  let ?\<sigma>' = "set_reg ?t ?v \<sigma>"
  define A where "A = (\<lambda>i. real (nat num_sum mod 2 ^ Suc i) / 2 ^ i * pi)"
  define B where "B = (\<lambda>i. real (nat K mod 2 ^ Suc i) / 2 ^ i * pi)"
  have dt: "distinct ?t" and ct: "control \<notin> set ?t" and at: "ancilla_qubit \<notin> set ?t"
    using assms(5) by auto
  have w: "0 < ?w" and w1: "?w - 1 = ceil_log2 (nat K)" using assms(4) by simp_all
  have ne: "?t \<noteq> []" using w by auto
  have "int (nat K) \<le> int (2 ^ ceil_log2 (nat K))"
    using ceil_log2_bound[of "nat K"] by (simp only: of_nat_le_iff)
  then have Kw: "K \<le> 2 ^ (?w - 1)" using assms(1) unfolding w1 by simp
  have "(2::int) ^ ?w = 2 * 2 ^ (?w - 1)" using w by (cases ?w) simp_all
  then have K2: "K < 2 ^ ?w" using Kw assms(1) by simp
  have K0: "0 \<le> K" using assms(1) by simp
  have ga: "get_angles_phase_addition num_sum ?w = Inr (map A [0..<?w])"
    unfolding A_def using assms(2,3) K2 by (intro get_angles_mod) simp_all
  have gb: "get_angles_phase_addition K ?w = Inr (map B [0..<?w])"
    unfolding B_def using K0 K2 by (intro get_angles_mod) simp_all
  have core: "run (map (\<lambda>i. CP (A i) control (?t ! i)) [0..<?w] @
              map (\<lambda>i. P (- B i) (?t ! i)) [0..<?w] @
              [QFT ?w 0 True ?t, CX (?t ! (?w - 1)) ancilla_qubit, QFT ?w 0 False ?t] @
              map (\<lambda>i. CP (B i) ancilla_qubit (?t ! i)) [0..<?w] @
              map (\<lambda>i. CP (- A i) control (?t ! i)) [0..<?w] @
              [QFT ?w 0 True ?t, X (?t ! (?w - 1)), CX (?t ! (?w - 1)) ancilla_qubit,
               X (?t ! (?w - 1)), QFT ?w 0 False ?t] @
              map (\<lambda>i. CP (A i) control (?t ! i)) [0..<?w])
           (phase_state ?t \<sigma>) = Some (phase_state ?t ?\<sigma>')"
    unfolding A_def B_def
    by (rule core_run[OF assms(5) w Kw assms(2,3) K0 assms(6,7)])
  have ops: "c_phase_add_mod_K ?t control ancilla_qubit num_sum K 0 inc =
     Inr ((if inc then [QFT ?w 0 False ?t] else []) @
          (map (\<lambda>i. CP (A i) control (?t ! i)) [0..<?w] @
              map (\<lambda>i. P (- B i) (?t ! i)) [0..<?w] @
              [QFT ?w 0 True ?t, CX (?t ! (?w - 1)) ancilla_qubit, QFT ?w 0 False ?t] @
              map (\<lambda>i. CP (B i) ancilla_qubit (?t ! i)) [0..<?w] @
              map (\<lambda>i. CP (- A i) control (?t ! i)) [0..<?w] @
              [QFT ?w 0 True ?t, X (?t ! (?w - 1)), CX (?t ! (?w - 1)) ancilla_qubit,
               X (?t ! (?w - 1)), QFT ?w 0 False ?t] @
              map (\<lambda>i. CP (A i) control (?t ! i)) [0..<?w]) @
          (if inc then [QFT ?w 0 True ?t] else []))" for inc
    unfolding c_phase_add_mod_K_ops[OF ga gb ne] nth_angles by (simp only: append_assoc)
  have q1: "run [QFT ?w 0 False ?t] (basis \<sigma>) = Some (phase_state ?t \<sigma>)"
    unfolding run.simps QFT_basis[OF dt] option.case ..
  have q2: "run [QFT ?w 0 True ?t] (phase_state ?t ?\<sigma>') = Some (basis ?\<sigma>')"
    unfolding run.simps IQFT_phase[OF dt] option.case ..
  have runs: "run ((if include_QFTs then [QFT ?w 0 False ?t] else []) @
          (map (\<lambda>i. CP (A i) control (?t ! i)) [0..<?w] @
              map (\<lambda>i. P (- B i) (?t ! i)) [0..<?w] @
              [QFT ?w 0 True ?t, CX (?t ! (?w - 1)) ancilla_qubit, QFT ?w 0 False ?t] @
              map (\<lambda>i. CP (B i) ancilla_qubit (?t ! i)) [0..<?w] @
              map (\<lambda>i. CP (- A i) control (?t ! i)) [0..<?w] @
              [QFT ?w 0 True ?t, X (?t ! (?w - 1)), CX (?t ! (?w - 1)) ancilla_qubit,
               X (?t ! (?w - 1)), QFT ?w 0 False ?t] @
              map (\<lambda>i. CP (A i) control (?t ! i)) [0..<?w]) @
          (if include_QFTs then [QFT ?w 0 True ?t] else []))
         (if include_QFTs then basis \<sigma> else phase_state ?t \<sigma>) =
         Some (if include_QFTs then basis ?\<sigma>' else phase_state ?t ?\<sigma>')"
  proof (cases include_QFTs)
    case True
    show ?thesis
      unfolding if_P[OF True] run_append[of "[QFT ?w 0 False ?t]"] q1 option.case
        run_append[of _ "[QFT ?w 0 True ?t]"] core q2 ..
  next
    case False
    show ?thesis
      unfolding if_not_P[OF False] append_Nil append_Nil2 core ..
  qed
  have vK: "(?x + (if \<sigma> control then num_sum else 0)) mod K < K"
    and v0: "0 \<le> (?x + (if \<sigma> control then num_sum else 0)) mod K"
    using assms(1) by simp_all
  have "int ?v < 2 ^ ?w" using vK v0 K2 by simp
  then have "int ?v < int (2 ^ ?w)" by simp
  then have vw: "?v < 2 ^ ?w" by (simp only: of_nat_less_iff)
  have rv: "reg_val ?t ?\<sigma>' = ?v" by (rule reg_val_set_reg[OF dt vw])
  have "?x mod K = ?x" using assms(6) by (intro mod_pos_pos_trivial) simp_all
  then have val: "int (reg_val ?t ?\<sigma>') =
      (if \<sigma> control then (?x + num_sum) mod K else ?x)"
    unfolding rv using v0 by simp
  have anc: "\<not> ?\<sigma>' ancilla_qubit" unfolding set_reg_outside[OF at] by (rule assms(7))
  have ctl: "?\<sigma>' control = \<sigma> control" by (rule set_reg_outside[OF ct])
  show ?thesis using ops[of include_QFTs] runs val anc ctl by simp
qed

lemma witness_state:
  "put 0 False (put (Suc 0) False (put 2 False (\<lambda>q. q = 0 \<or> q = (3::nat)))) = (\<lambda>q. q = 3)"
  by (rule ext) (simp add: put_def)

theorem c_phase_add_mod_K_correct_witness:
  "\<exists>ops. c_phase_add_mod_K [0, 1, 2] 3 4 2 3 0 True = Inr ops \<and>
         run ops (basis (\<lambda>q. q = 0 \<or> q = (3::nat))) = Some (basis (\<lambda>q. q = 3))"
  using c_phase_add_mod_K_correct[where K = 3 and num_sum = 2 and target_register = "[0, 1, 2]"
      and control = 3 and ancilla_qubit = 4 and \<sigma> = "\<lambda>q. q = 0 \<or> q = (3::nat)"
      and include_QFTs = True]
  by (simp add: ceil_log2_3 witness_state)

end
